theory Spec2Isabelle
  imports Complex_Main
begin

section \<open>Data model of \<open>exploration/ar_analytical_ml.ipynb\<close>\<close>

text \<open>
  The notebook defines one class, \<open>AnalyticalAR\<close>, with the methods \<open>__init__\<close>,
  \<open>fit\<close> and \<open>predict\<close>. Numbers are idealised as exact reals. A value that sympy
  leaves non-finite (\<open>nan\<close>, \<open>zoo\<close>) is \<open>NaN\<close>; it is absorbing for \<open>+\<close> and \<open>*\<close>.
\<close>

datatype val = Num real | NaN

fun val_add :: "val \<Rightarrow> val \<Rightarrow> val" where
  "val_add (Num a) (Num b) = Num (a + b)"
| "val_add _ _ = NaN"

fun val_mul :: "val \<Rightarrow> val \<Rightarrow> val" where
  "val_mul (Num a) (Num b) = Num (a * b)"
| "val_mul _ _ = NaN"

text \<open>
  The exceptions the code can raise. The class defines none of its own.
  \<open>NoSolutionError\<close> stands for the failure of the lookup
  \<open>phi_solutions[self.phi[j]]\<close> when \<open>sp.solve\<close> bound no value to \<open>phi[j]\<close>
  (a \<open>KeyError\<close> on a partial dictionary, a \<open>TypeError\<close> on an empty list).
\<close>

datatype error = ZeroDivisionError | NoSolutionError | AttributeError | KeyError | IndexError

text \<open>An attribute holds a sympy symbol or a number.\<close>

datatype expr = Symbol string | Number val

text \<open>
  The object. \<open>phi_values\<close> does not exist before \<open>fit\<close> (\<open>None\<close>); afterwards it is
  a dictionary keyed by the symbols \<open>phi[0], ..., phi[order - 1]\<close>, here by their index.
\<close>

record AnalyticalAR =
  order :: nat
  phi_values :: "(nat \<rightharpoonup> val) option"
  sigma2 :: expr

definition init :: "nat \<Rightarrow> AnalyticalAR" where
  "init p = \<lparr>order = p, phi_values = None, sigma2 = Symbol ''sigma2''\<rparr>"

text \<open>
  Arrays live in a store; an address is an index into it. \<open>np.append\<close> never writes to
  its argument: it allocates a new array.
\<close>

type_synonym addr = nat
type_synonym heap = "val list list"

definition np_append :: "heap \<Rightarrow> addr \<Rightarrow> val \<Rightarrow> heap \<times> addr" where
  "np_append h a v = (h @ [h ! a @ [v]], length h)"

record state =
  self :: AnalyticalAR
  arrays :: heap

section \<open>\<open>predict\<close>\<close>

text \<open>
  One summand \<open>self.phi_values[self.phi[j]] * y[-j-1]\<close>: the attribute lookup, the
  dictionary lookup and the negative index can each raise.
\<close>

definition ar_term :: "AnalyticalAR \<Rightarrow> val list \<Rightarrow> nat \<Rightarrow> error + val" where
  "ar_term slf y j =
     (case phi_values slf of
        None \<Rightarrow> Inl AttributeError
      | Some d \<Rightarrow>
          (case d j of
             None \<Rightarrow> Inl KeyError
           | Some c \<Rightarrow>
               if j + 1 \<le> length y then Inr (val_mul c (y ! (length y - j - 1)))
               else Inl IndexError))"

text \<open>Python's \<open>sum\<close> over a generator: a left fold from 0 that stops at the first raise.\<close>

fun py_sum :: "(nat \<Rightarrow> error + val) \<Rightarrow> nat list \<Rightarrow> val \<Rightarrow> error + val" where
  "py_sum f [] acc = Inr acc"
| "py_sum f (j # js) acc =
     (case f j of Inl e \<Rightarrow> Inl e | Inr v \<Rightarrow> py_sum f js (val_add acc v))"

definition ar_pred :: "AnalyticalAR \<Rightarrow> val list \<Rightarrow> error + val" where
  "ar_pred slf y = py_sum (ar_term slf y) [0..<order slf] (Num 0)"

text \<open>
  The loop \<open>for _ in range(steps)\<close>, with the local \<open>y\<close> (an address) rebound to the
  array that \<open>np.append\<close> allocates and \<open>predictions\<close> grown at its end.
\<close>

fun predict_loop ::
  "AnalyticalAR \<Rightarrow> nat \<Rightarrow> heap \<Rightarrow> addr \<Rightarrow> val list \<Rightarrow> (error + val list) \<times> heap" where
  "predict_loop slf 0 h a preds = (Inr preds, h)"
| "predict_loop slf (Suc n) h a preds =
     (case ar_pred slf (h ! a) of
        Inl e \<Rightarrow> (Inl e, h)
      | Inr pred \<Rightarrow>
          (case np_append h a pred of
             (h', a') \<Rightarrow> predict_loop slf n h' a' (preds @ [pred])))"

text \<open>\<open>range(steps)\<close> is empty for \<open>steps \<le> 0\<close>. The method assigns to no attribute.\<close>

definition predict :: "state \<Rightarrow> addr \<Rightarrow> int \<Rightarrow> (error + val list) \<times> state" where
  "predict s y steps =
     (case predict_loop (self s) (nat steps) (arrays s) y [] of
        (r, h') \<Rightarrow> (r, s\<lparr>arrays := h'\<rparr>))"

text \<open>A fitted model: the dictionary exists and has a value for every \<open>phi[j]\<close>.\<close>

definition fitted :: "AnalyticalAR \<Rightarrow> bool" where
  "fitted slf = (case phi_values slf of
                   None \<Rightarrow> False
                 | Some d \<Rightarrow> list_all (\<lambda>j. d j \<noteq> None) [0..<order slf])"

text \<open>The values the loop produces, as a function of the array's contents alone.\<close>

fun roll :: "AnalyticalAR \<Rightarrow> nat \<Rightarrow> val list \<Rightarrow> val list \<Rightarrow> error + val list" where
  "roll slf 0 y preds = Inr preds"
| "roll slf (Suc n) y preds =
     (case ar_pred slf y of
        Inl e \<Rightarrow> Inl e
      | Inr pred \<Rightarrow> roll slf n (y @ [pred]) (preds @ [pred]))"

section \<open>\<open>fit\<close>\<close>

text \<open>
  \<open>y_sym[i]\<close> after the substitution \<open>y_values = {y_sym[i]: y[i-1] for i in range(1, N+1)}\<close>.
  For \<open>N \<ge> order\<close> every index the expressions below use lies in \<open>1..N\<close>.
\<close>

definition y_sym :: "real list \<Rightarrow> nat \<Rightarrow> real" where
  "y_sym y i = y ! (i - 1)"

text \<open>\<open>residual = y_sym[i] - sum(self.phi[j] * y_sym[i-j-1] for j in range(self.order))\<close>\<close>

definition residual :: "nat \<Rightarrow> real list \<Rightarrow> real list \<Rightarrow> nat \<Rightarrow> real" where
  "residual p y phi i = y_sym y i - (\<Sum>j<p. phi ! j * y_sym y (i - j - 1))"

text \<open>
  \<open>sp.Sum(residual**2, (i, self.order + 1, N)).doit()\<close>. For \<open>N < order\<close> sympy sums the
  reversed range with the opposite sign, over symbols that \<open>y_values\<close> does not cover; here
  the sum is empty then.
\<close>

definition sum_sq :: "nat \<Rightarrow> real list \<Rightarrow> real list \<Rightarrow> real" where
  "sum_sq p y phi = (\<Sum>i = p + 1..length y. (residual p y phi i)\<^sup>2)"

text \<open>
  \<open>sigma2 = (1 / (N - 2 * self.order)) * Sum\<close>; the division is Python's, of integers,
  and is guarded in \<open>fit\<close> below.
\<close>

definition sigma2_expr :: "nat \<Rightarrow> real list \<Rightarrow> real list \<Rightarrow> real" where
  "sigma2_expr p y phi = (1 / real_of_int (int (length y) - 2 * int p)) * sum_sq p y phi"

text \<open>\<open>log_likelihood = -(N - self.order)/2 * sp.log(2 * np.pi * sigma2)\<close>\<close>

definition log_likelihood :: "nat \<Rightarrow> real list \<Rightarrow> real list \<Rightarrow> real" where
  "log_likelihood p y phi =
     - real_of_int (int (length y) - int p) / 2 * ln (2 * pi * sigma2_expr p y phi)"

text \<open>
  \<open>sp.diff(log_likelihood, self.phi[j])\<close>, by the chain rule: a quotient, the derivative
  of the logarithm's argument over the argument. That the quotient is the derivative of
  \<open>log_likelihood\<close> in its \<open>j\<close>-th coefficient is proved below (\<open>log_likelihood_deriv\<close>).
\<close>

definition diff_numer :: "nat \<Rightarrow> real list \<Rightarrow> real list \<Rightarrow> nat \<Rightarrow> real" where
  "diff_numer p y phi j =
     - real_of_int (int (length y) - int p) / 2 *
       (2 * pi * ((1 / real_of_int (int (length y) - 2 * int p)) *
          (\<Sum>i = p + 1..length y. 2 * residual p y phi i * (- y_sym y (i - j - 1)))))"

definition diff_denom :: "nat \<Rightarrow> real list \<Rightarrow> real list \<Rightarrow> real" where
  "diff_denom p y phi = 2 * pi * sigma2_expr p y phi"

definition diff_log_likelihood :: "nat \<Rightarrow> real list \<Rightarrow> real list \<Rightarrow> nat \<Rightarrow> real" where
  "diff_log_likelihood p y phi j = diff_numer p y phi j / diff_denom p y phi"

text \<open>
  \<open>sp.solve(diff_log_likelihood, self.phi)\<close> clears the denominator of each equation and
  reads the numerator as a polynomial in the \<open>phi[k]\<close>. A linear polynomial is given by
  its constant term, its value at 0, and by the coefficient of each \<open>phi[k]\<close>, its increase
  from 0 to the \<open>k\<close>-th unit vector; a row holds the coefficients and, on the right-hand
  side, minus the constant term. That each numerator is linear is proved below
  (\<open>diff_numer_affine\<close>).
\<close>

type_synonym row = "real list \<times> real"

definition equations :: "nat \<Rightarrow> real list \<Rightarrow> row list" where
  "equations p y =
     map (\<lambda>j. (map (\<lambda>k. diff_numer p y ((replicate p 0)[k := 1]) j
                         - diff_numer p y (replicate p 0) j) [0..<p],
               - diff_numer p y (replicate p 0) j))
         [0..<p]"

text \<open>
  The solution of a linear system by elimination: \<open>Some\<close> of the solution when there is
  exactly one, \<open>None\<close> otherwise.
\<close>

definition dot :: "real list \<Rightarrow> real list \<Rightarrow> real" where
  "dot xs ys = sum_list (map2 (*) xs ys)"

definition lead :: "row \<Rightarrow> real" where
  "lead r = (case fst r of [] \<Rightarrow> 0 | a # _ \<Rightarrow> a)"

fun pivot_split :: "row list \<Rightarrow> (row \<times> row list) option" where
  "pivot_split [] = None"
| "pivot_split (r # rs) =
     (if lead r \<noteq> 0 then Some (r, rs)
      else (case pivot_split rs of
              None \<Rightarrow> None
            | Some (pr, rest) \<Rightarrow> Some (pr, r # rest)))"

definition eliminate :: "row \<Rightarrow> row \<Rightarrow> row" where
  "eliminate pr r =
     (let m = lead r / lead pr
      in (map2 (\<lambda>a b. b - m * a) (tl (fst pr)) (tl (fst r)), snd r - m * snd pr))"

fun solve_lin :: "nat \<Rightarrow> row list \<Rightarrow> real list option" where
  "solve_lin 0 rows = (if list_all (\<lambda>r. snd r = 0) rows then Some [] else None)"
| "solve_lin (Suc n) rows =
     (case pivot_split rows of
        None \<Rightarrow> None
      | Some (pr, rest) \<Rightarrow>
          (case solve_lin n (map (eliminate pr) rest) of
             None \<Rightarrow> None
           | Some xs \<Rightarrow> Some ((snd pr - dot (tl (fst pr)) xs) / lead pr # xs)))"

text \<open>
  \<open>sp.solve\<close> is given the equations in the symbols \<open>y_sym[i]\<close>, before any data are
  substituted. It binds a value to every \<open>phi[j]\<close> when the system determines them as
  quotients in the symbols, that is, when it has exactly one solution for some values
  of the symbols (and then for all but exceptional ones). Which lengths allow that is
  proved below (\<open>solved_on_symbols_iff\<close>).
\<close>

definition solved_on_symbols :: "nat \<Rightarrow> nat \<Rightarrow> bool" where
  "solved_on_symbols p N = (\<exists>y'. length y' = N \<and> solve_lin p (equations p y') \<noteq> None)"

text \<open>
  \<open>fit\<close>, in the order of the source.
  \<^item> \<open>1 / (N - 2 * self.order)\<close> divides Python integers: \<open>ZeroDivisionError\<close> when
    \<open>N = 2 * order\<close>.
  \<^item> When \<open>sp.solve\<close> binds no value to some \<open>phi[j]\<close>, the lookup
    \<open>phi_solutions[self.phi[j]]\<close> raises.
  \<^item> Otherwise \<open>phi_solutions\<close> holds the solution as quotients in the \<open>y_sym[i]\<close>, and
    \<open>.subs(y_values)\<close> evaluates them at the data: to the solution of the system where
    the data determine one, to a non-finite value (no exception) where the
    denominators vanish.
  \<^item> Only \<open>self.phi_values\<close> is assigned; the method returns nothing.
  The stored numbers are sympy Floats; here they are the exact values that those round.
\<close>

definition fit :: "AnalyticalAR \<Rightarrow> real list \<Rightarrow> error + AnalyticalAR" where
  "fit slf y =
     (let N = length y; p = order slf
      in if int N - 2 * int p = 0 then Inl ZeroDivisionError
         else if \<not> solved_on_symbols p N then Inl NoSolutionError
         else Inr (slf\<lparr>phi_values :=
                Some (map_of (zip [0..<p]
                  (case solve_lin p (equations p y) of
                     Some sol \<Rightarrow> map Num sol
                   | None \<Rightarrow> replicate p NaN)))\<rparr>))"

section \<open>The least-squares problem of the specification\<close>

text \<open>
  The design matrix has the rows \<open>[y(t-1), ..., y(t-p)]\<close> for \<open>t = p+1, ..., N\<close>; the
  target vector is \<open>[y(p+1), ..., y(N)]\<close>.
\<close>

definition design_matrix :: "nat \<Rightarrow> real list \<Rightarrow> real list list" where
  "design_matrix p y = map (\<lambda>t. map (\<lambda>j. y_sym y (t - j)) [1..<p + 1]) [p + 1..<length y + 1]"

definition target :: "nat \<Rightarrow> real list \<Rightarrow> real list" where
  "target p y = map (y_sym y) [p + 1..<length y + 1]"

text \<open>Matrices are lists of rows; \<open>m\<close> is the number of columns.\<close>

definition mat_transpose :: "nat \<Rightarrow> real list list \<Rightarrow> real list list" where
  "mat_transpose m A = map (\<lambda>j. map (\<lambda>r. r ! j) A) [0..<m]"

definition mat_mul :: "nat \<Rightarrow> real list list \<Rightarrow> real list list \<Rightarrow> real list list" where
  "mat_mul m A B = map (\<lambda>r. map (dot r) (mat_transpose m B)) A"

definition mat_vec :: "real list list \<Rightarrow> real list \<Rightarrow> real list" where
  "mat_vec A v = map (\<lambda>r. dot r v) A"

definition XtX :: "nat \<Rightarrow> real list \<Rightarrow> real list list" where
  "XtX p y = mat_mul p (mat_transpose p (design_matrix p y)) (design_matrix p y)"

text \<open>The normal equations \<open>X\<^sup>T X phi = X\<^sup>T t\<close>.\<close>

definition normal_equations :: "nat \<Rightarrow> real list \<Rightarrow> real list \<Rightarrow> bool" where
  "normal_equations p y phi =
     (mat_vec (XtX p y) phi = mat_vec (mat_transpose p (design_matrix p y)) (target p y))"

text \<open>The design is non-singular: \<open>X\<^sup>T X v = 0\<close> only for \<open>v = 0\<close>.\<close>

definition nonsingular_design :: "nat \<Rightarrow> real list \<Rightarrow> bool" where
  "nonsingular_design p y =
     (\<forall>v. length v = p \<longrightarrow> mat_vec (XtX p y) v = replicate p 0 \<longrightarrow> v = replicate p 0)"

text \<open>
  The rows of the augmented matrix \<open>X\<^sup>T X | X\<^sup>T t\<close>, and a row multiplied by a constant.
\<close>

definition normal_rows :: "nat \<Rightarrow> real list \<Rightarrow> row list" where
  "normal_rows p y =
     zip (XtX p y) (mat_vec (mat_transpose p (design_matrix p y)) (target p y))"

definition scale_row :: "real \<Rightarrow> row \<Rightarrow> row" where
  "scale_row c r = (map ((*) c) (fst r), c * snd r)"

text \<open>The constant factor between the rows of \<open>fit\<close> and those of the normal equations.\<close>

definition row_factor :: "nat \<Rightarrow> nat \<Rightarrow> real" where
  "row_factor p N =
     - real_of_int (int N - int p) / 2 * (2 * pi * ((1 / real_of_int (int N - 2 * int p)) * 2))"

text \<open>A model fitted with the finite coefficients \<open>phi\<close>.\<close>

definition has_coeffs :: "AnalyticalAR \<Rightarrow> real list \<Rightarrow> bool" where
  "has_coeffs slf phi =
     (length phi = order slf \<and>
      (case phi_values slf of
         None \<Rightarrow> False
       | Some d \<Rightarrow> list_all (\<lambda>j. d j = Some (Num (phi ! j))) [0..<order slf]))"

text \<open>
  The notebook's example: \<open>y = np.array([1, 2, 2, 5, 8, 14])\<close>, \<open>order=2\<close>, and the object
  that \<open>fit\<close> makes of it in exact arithmetic (\<open>example_fit\<close> below).
\<close>

definition example_y :: "real list" where
  "example_y = [1, 2, 2, 5, 8, 14]"

definition example_model :: AnalyticalAR where
  "example_model =
     \<lparr>order = 2,
      phi_values = Some (map_of [(0, Num (26 / 27)), (1, Num (35 / 27))]),
      sigma2 = Symbol ''sigma2''\<rparr>"

definition example_state :: state where
  "example_state = \<lparr>self = example_model, arrays = [map Num example_y]\<rparr>"

section \<open>Properties of \<open>predict\<close>\<close>

lemma predict_loop_roll:
  "a < length h \<Longrightarrow> fst (predict_loop slf n h a preds) = roll slf n (h ! a) preds"
proof (induction n arbitrary: h a preds)
  case 0
  show ?case by simp
next
  case (Suc n)
  show ?case
  proof (cases "ar_pred slf (h ! a)")
    case (Inl e)
    then show ?thesis by simp
  next
    case (Inr pred)
    have "fst (predict_loop slf n (h @ [h ! a @ [pred]]) (length h) (preds @ [pred]))
          = roll slf n ((h @ [h ! a @ [pred]]) ! length h) (preds @ [pred])"
      by (rule Suc.IH) simp
    with Inr show ?thesis by (simp add: np_append_def)
  qed
qed

lemma predict_loop_heap:
  "take (length h) (snd (predict_loop slf n h a preds)) = h"
proof (induction n arbitrary: h a preds)
  case 0
  show ?case by simp
next
  case (Suc n)
  show ?case
  proof (cases "ar_pred slf (h ! a)")
    case (Inl e)
    then show ?thesis by simp
  next
    case (Inr pred)
    let ?h' = "h @ [h ! a @ [pred]]"
    have "take (length ?h') (snd (predict_loop slf n ?h' (length h) (preds @ [pred]))) = ?h'"
      by (rule Suc.IH)
    then have "take (length h) (take (length ?h')
                 (snd (predict_loop slf n ?h' (length h) (preds @ [pred])))) = take (length h) ?h'"
      by simp
    then have "take (length h) (snd (predict_loop slf n ?h' (length h) (preds @ [pred]))) = h"
      by (simp add: min_def)
    with Inr show ?thesis by (simp add: np_append_def)
  qed
qed


lemma py_sum_cong:
  "(\<And>j. j \<in> set js \<Longrightarrow> f j = g j) \<Longrightarrow> py_sum f js acc = py_sum g js acc"
  by (induction js arbitrary: acc) (auto split: sum.splits)

lemma py_sum_num:
  "(\<And>j. j \<in> set js \<Longrightarrow> f j = Inr (Num (g j))) \<Longrightarrow>
   py_sum f js (Num a) = Inr (Num (a + sum_list (map g js)))"
  by (induction js arbitrary: a) (auto simp: add.assoc)

lemma py_sum_ok:
  "(\<And>j. j \<in> set js \<Longrightarrow> \<exists>v. f j = Inr v) \<Longrightarrow> \<exists>v. py_sum f js acc = Inr v"
proof (induction js arbitrary: acc)
  case Nil
  show ?case by simp
next
  case (Cons j js)
  obtain v where v: "f j = Inr v" using Cons.prems [of j] by auto
  have "\<exists>w. py_sum f js (val_add acc v) = Inr w"
    by (rule Cons.IH) (simp add: Cons.prems)
  with v show ?case by simp
qed


lemma fitted_term:
  assumes "fitted slf" "j < order slf"
  shows "\<exists>c. ar_term slf y j =
           (if j + 1 \<le> length y then Inr (val_mul c (y ! (length y - j - 1))) else Inl IndexError)"
proof -
  from assms(1) obtain d where d: "phi_values slf = Some d"
    and all: "list_all (\<lambda>j. d j \<noteq> None) [0..<order slf]"
    by (auto simp: fitted_def split: option.splits)
  from all assms(2) have "d j \<noteq> None"
    by (simp add: list_all_iff)
  then obtain c where "d j = Some c" by blast
  with d show ?thesis by (auto simp: ar_term_def)
qed

lemma ar_pred_ok:
  assumes "fitted slf" "order slf \<le> length y"
  shows "\<exists>v. ar_pred slf y = Inr v"
  unfolding ar_pred_def
proof (rule py_sum_ok)
  fix j assume "j \<in> set [0..<order slf]"
  then have j: "j < order slf" by simp
  from fitted_term [OF assms(1) j, of y] j assms(2)
  show "\<exists>v. ar_term slf y j = Inr v" by auto
qed


lemma roll_length:
  "fitted slf \<Longrightarrow> order slf \<le> length y \<Longrightarrow>
   \<exists>out. roll slf n y preds = Inr (preds @ out) \<and> length out = n"
proof (induction n arbitrary: y preds)
  case 0
  show ?case by simp
next
  case (Suc n)
  from ar_pred_ok [OF Suc.prems] obtain v where v: "ar_pred slf y = Inr v" by auto
  have "order slf \<le> length (y @ [v])" using Suc.prems(2) by simp
  from Suc.IH [OF Suc.prems(1) this, of "preds @ [v]"]
  obtain out where "roll slf n (y @ [v]) (preds @ [v]) = Inr ((preds @ [v]) @ out)"
    and "length out = n" by auto
  with v have "roll slf (Suc n) y preds = Inr (preds @ (v # out)) \<and> length (v # out) = Suc n"
    by simp
  then show ?case by blast
qed


lemma has_coeffs_fitted: "has_coeffs slf phi \<Longrightarrow> fitted slf"
  by (auto simp: has_coeffs_def fitted_def list_all_iff split: option.splits)

lemma example_fitted: "fitted example_model"
  by (simp add: fitted_def example_model_def upt_conv_Cons)

lemma example_has_coeffs: "has_coeffs example_model [26 / 27, 35 / 27]"
  by (simp add: has_coeffs_def example_model_def upt_conv_Cons)

lemma predict_fst:
  "y < length (arrays s) \<Longrightarrow> fst (predict s y h) = roll (self s) (nat h) (arrays s ! y) []"
  using predict_loop_roll [of y "arrays s" "self s" "nat h" "[]"]
  by (auto simp: predict_def split: prod.splits)

lemma predict_snd:
  "snd (predict s y h) = s\<lparr>arrays := snd (predict_loop (self s) (nat h) (arrays s) y [])\<rparr>"
  by (simp add: predict_def split: prod.splits)

text \<open>
  C8. For a fitted model, a history of at least \<open>order\<close> values and a horizon \<open>h \<ge> 0\<close>,
  \<open>predict\<close> returns normally, with exactly \<open>h\<close> values.
\<close>

theorem predict_length:
  assumes "fitted (self s)" and "y < length (arrays s)"
    and "order (self s) \<le> length (arrays s ! y)" and "0 \<le> h"
  shows "\<exists>out. fst (predict s y h) = Inr out \<and> int (length out) = h"
proof -
  from roll_length [OF assms(1) assms(3), of "nat h" "[]"]
  obtain out where "roll (self s) (nat h) (arrays s ! y) [] = Inr out" and "length out = nat h"
    by auto
  with assms(2,4) show ?thesis by (simp add: predict_fst)
qed

theorem predict_length_witness:
  "\<exists>out. fst (predict example_state 0 3) = Inr out \<and> int (length out) = 3"
proof -
  have "fitted (self example_state)"
    by (simp add: example_state_def example_fitted)
  moreover have "0 < length (arrays example_state)"
    by (simp add: example_state_def)
  moreover have "order (self example_state) \<le> length (arrays example_state ! 0)"
    by (simp add: example_state_def example_model_def example_y_def)
  ultimately show ?thesis
    using predict_length [of example_state 0 3] by simp
qed





lemma predict_preserves:
  "take (length (arrays s)) (arrays (snd (predict s y h))) = arrays s \<and>
   self (snd (predict s y h)) = self s \<and>
   (\<forall>a < length (arrays s). arrays (snd (predict s y h)) ! a = arrays s ! a)"
proof -
  let ?h' = "snd (predict_loop (self s) (nat h) (arrays s) y [])"
  have t: "take (length (arrays s)) ?h' = arrays s"
    by (rule predict_loop_heap)
  have "\<forall>a < length (arrays s). ?h' ! a = arrays s ! a"
  proof (intro allI impI)
    fix a assume a: "a < length (arrays s)"
    then have "take (length (arrays s)) ?h' ! a = ?h' ! a" by simp
    with t show "?h' ! a = arrays s ! a" by simp
  qed
  with t show ?thesis by (simp add: predict_snd)
qed


text \<open>
  C9. \<open>predict\<close> leaves every array of the caller as it was, the history among them,
  and assigns to no attribute of the object: what it builds is allocated behind the
  arrays that existed at the call.
\<close>

theorem predict_frame:
  "take (length (arrays s)) (arrays (snd (predict s y h))) = arrays s \<and>
   self (snd (predict s y h)) = self s \<and>
   (\<forall>a < length (arrays s). arrays (snd (predict s y h)) ! a = arrays s ! a)"
  by (rule predict_preserves)

theorem predict_frame_witness:
  "arrays (snd (predict example_state 0 3)) ! 0 = map Num example_y"
proof -
  have "(0::nat) < length (arrays example_state)"
    by (simp add: example_state_def)
  with predict_frame [of example_state 0 3]
  have "arrays (snd (predict example_state 0 3)) ! 0 = arrays example_state ! 0"
    by blast
  then show ?thesis by (simp add: example_state_def)
qed

text \<open>
  C7. A second call of \<open>predict\<close>, made in the state the first call leaves behind, with
  the same history array and the same number of steps, returns what the first call
  returned.
\<close>

theorem predict_twice:
  assumes "y < length (arrays s)"
  shows "fst (predict (snd (predict s y h)) y h) = fst (predict s y h)"
proof -
  let ?s' = "snd (predict s y h)"
  from predict_preserves [of s y h] assms
  have same: "arrays ?s' ! y = arrays s ! y" and slf: "self ?s' = self s"
    and tk: "take (length (arrays s)) (arrays ?s') = arrays s"
    by blast+
  have "length (take (length (arrays s)) (arrays ?s')) = length (arrays s)"
    using tk by simp
  then have "length (arrays s) \<le> length (arrays ?s')" by simp
  with assms have y': "y < length (arrays ?s')" by simp
  show ?thesis
    by (simp only: predict_fst [OF y'] predict_fst [OF assms] same slf)
qed

theorem predict_twice_witness:
  "fst (predict (snd (predict example_state 0 3)) 0 3) = fst (predict example_state 0 3)"
proof -
  have "(0::nat) < length (arrays example_state)"
    by (simp add: example_state_def)
  then show ?thesis by (rule predict_twice)
qed


lemma ar_term_tail:
  assumes "j < p" and "y1 = pre1 @ t" and "y2 = pre2 @ t" and "length t = p"
  shows "ar_term slf y1 j = ar_term slf y2 j"
proof -
  have i1: "length (pre1 @ t) - j - 1 = length pre1 + (p - j - 1)"
    and i2: "length (pre2 @ t) - j - 1 = length pre2 + (p - j - 1)"
    using assms by simp_all
  have "(pre1 @ t) ! (length pre1 + (p - j - 1)) = t ! (p - j - 1)"
    by (rule nth_append_length_plus)
  then have "y1 ! (length y1 - j - 1) = t ! (p - j - 1)"
    by (simp only: assms(2) i1)
  moreover have "(pre2 @ t) ! (length pre2 + (p - j - 1)) = t ! (p - j - 1)"
    by (rule nth_append_length_plus)
  then have "y2 ! (length y2 - j - 1) = t ! (p - j - 1)"
    by (simp only: assms(3) i2)
  moreover have "j + 1 \<le> length y1" "j + 1 \<le> length y2"
    using assms by simp_all
  ultimately show ?thesis by (simp add: ar_term_def split: option.splits)
qed

lemma ar_pred_tail:
  assumes "y1 = pre1 @ t" and "y2 = pre2 @ t" and "length t = order slf"
  shows "ar_pred slf y1 = ar_pred slf y2"
  unfolding ar_pred_def
proof (rule py_sum_cong)
  fix j assume "j \<in> set [0..<order slf]"
  then have "j < order slf" by simp
  then show "ar_term slf y1 j = ar_term slf y2 j"
    by (rule ar_term_tail [OF _ assms])
qed

lemma roll_tail:
  "length t = order slf \<Longrightarrow> roll slf n (pre1 @ t) preds = roll slf n (pre2 @ t) preds"
proof (induction n arbitrary: pre1 pre2 t preds)
  case 0
  show ?case by simp
next
  case (Suc n)
  have eq: "ar_pred slf (pre1 @ t) = ar_pred slf (pre2 @ t)"
    by (rule ar_pred_tail [OF refl refl Suc.prems])
  show ?case
  proof (cases "ar_pred slf (pre2 @ t)")
    case (Inl e)
    with eq show ?thesis by simp
  next
    case (Inr v)
    show ?thesis
    proof (cases t)
      case Nil
      with Suc.prems have p0: "length ([]::val list) = order slf" by simp
      have "roll slf n ((pre1 @ [v]) @ []) (preds @ [v]) = roll slf n ((pre2 @ [v]) @ []) (preds @ [v])"
        by (rule Suc.IH [OF p0])
      with Nil eq Inr show ?thesis by simp
    next
      case (Cons x t')
      with Suc.prems have len: "length (t' @ [v]) = order slf" by simp
      have "roll slf n ((pre1 @ [x]) @ (t' @ [v])) (preds @ [v])
            = roll slf n ((pre2 @ [x]) @ (t' @ [v])) (preds @ [v])"
        by (rule Suc.IH [OF len])
      with Cons eq Inr show ?thesis by simp
    qed
  qed
qed

text \<open>
  C10. Two histories that end in the same \<open>order\<close> values give the same result for the
  same number of steps: nothing before the last \<open>order\<close> values is read.
\<close>

theorem predict_last_values:
  assumes "self s1 = self s2"
    and "y1 < length (arrays s1)" and "y2 < length (arrays s2)"
    and "arrays s1 ! y1 = pre1 @ t" and "arrays s2 ! y2 = pre2 @ t"
    and "length t = order (self s1)"
  shows "fst (predict s1 y1 h) = fst (predict s2 y2 h)"
proof -
  have "roll (self s1) (nat h) (pre1 @ t) [] = roll (self s1) (nat h) (pre2 @ t) []"
    by (rule roll_tail [OF assms(6)])
  then show ?thesis
    by (simp add: predict_fst [OF assms(2)] predict_fst [OF assms(3)] assms(1,4,5))
qed

theorem predict_last_values_witness:
  "fst (predict \<lparr>self = example_model, arrays = [map Num [1, 2, 2, 5, 8, 14]]\<rparr> 0 3)
   = fst (predict \<lparr>self = example_model, arrays = [map Num [7, 8, 14]]\<rparr> 0 3)"
proof -
  let ?s1 = "\<lparr>self = example_model, arrays = [map Num [1, 2, 2, 5, 8, 14]]\<rparr>"
  let ?s2 = "\<lparr>self = example_model, arrays = [map Num [7, 8, 14]]\<rparr>"
  have "self ?s1 = self ?s2" by simp
  moreover have "(0::nat) < length (arrays ?s1)" "(0::nat) < length (arrays ?s2)" by simp_all
  moreover have "arrays ?s1 ! 0 = map Num [1, 2, 2, 5] @ map Num [8, 14]" by simp
  moreover have "arrays ?s2 ! 0 = map Num [7] @ map Num [8, 14]" by simp
  moreover have "length (map Num [8, 14]) = order (self ?s1)" by (simp add: example_model_def)
  ultimately show ?thesis by (rule predict_last_values)
qed


lemma has_coeffs_term:
  assumes "has_coeffs slf phi" and "j < order slf" and "order slf \<le> length ys"
  shows "ar_term slf (map Num ys) j = Inr (Num (phi ! j * ys ! (length ys - j - 1)))"
proof -
  from assms(1) obtain d where d: "phi_values slf = Some d"
    and all: "list_all (\<lambda>j. d j = Some (Num (phi ! j))) [0..<order slf]"
    by (auto simp: has_coeffs_def split: option.splits)
  from all assms(2) have "d j = Some (Num (phi ! j))"
    by (simp add: list_all_iff)
  with d assms(2,3) show ?thesis by (simp add: ar_term_def)
qed

lemma ar_pred_num:
  assumes "has_coeffs slf phi" and "order slf \<le> length ys"
  shows "ar_pred slf (map Num ys)
         = Inr (Num (\<Sum>j<order slf. phi ! j * ys ! (length ys - j - 1)))"
proof -
  let ?g = "\<lambda>j. phi ! j * ys ! (length ys - j - 1)"
  have "py_sum (ar_term slf (map Num ys)) [0..<order slf] (Num 0)
        = Inr (Num (0 + sum_list (map ?g [0..<order slf])))"
  proof (rule py_sum_num)
    fix j assume "j \<in> set [0..<order slf]"
    then have "j < order slf" by simp
    then show "ar_term slf (map Num ys) j = Inr (Num (?g j))"
      by (rule has_coeffs_term [OF assms(1) _ assms(2)])
  qed
  moreover have "sum_list (map ?g [0..<order slf]) = (\<Sum>j<order slf. ?g j)"
    by (simp add: interv_sum_list_conv_sum_set_nat atLeast0LessThan)
  ultimately show ?thesis by (simp add: ar_pred_def)
qed

lemma roll_num:
  "has_coeffs slf phi \<Longrightarrow> order slf \<le> length ys \<Longrightarrow>
   \<exists>out. roll slf n (map Num ys) (map Num ps) = Inr (map Num (ps @ out)) \<and> length out = n \<and>
     (\<forall>k<n. out ! k = (\<Sum>j<order slf. phi ! j * (ys @ out) ! (length ys + k - j - 1)))"
proof (induction n arbitrary: ys ps)
  case 0
  show ?case by simp
next
  case (Suc n)
  let ?p = "order slf"
  define v where "v = (\<Sum>j<?p. phi ! j * ys ! (length ys - j - 1))"
  have v: "ar_pred slf (map Num ys) = Inr (Num v)"
    unfolding v_def by (rule ar_pred_num [OF Suc.prems])
  have len: "?p \<le> length (ys @ [v])" using Suc.prems(2) by simp
  from Suc.IH [OF Suc.prems(1) len, of "ps @ [v]"]
  obtain out where r: "roll slf n (map Num (ys @ [v])) (map Num (ps @ [v]))
                       = Inr (map Num ((ps @ [v]) @ out))"
    and l: "length out = n"
    and f: "\<forall>k<n. out ! k = (\<Sum>j<?p. phi ! j * ((ys @ [v]) @ out) ! (length (ys @ [v]) + k - j - 1))"
    by blast
  have r': "roll slf (Suc n) (map Num ys) (map Num ps) = Inr (map Num (ps @ (v # out)))"
    using v r by simp
  have "\<forall>k<Suc n. (v # out) ! k
          = (\<Sum>j<?p. phi ! j * (ys @ (v # out)) ! (length ys + k - j - 1))"
  proof (intro allI impI)
    fix k assume k: "k < Suc n"
    show "(v # out) ! k = (\<Sum>j<?p. phi ! j * (ys @ (v # out)) ! (length ys + k - j - 1))"
    proof (cases k)
      case 0
      have "(\<Sum>j<?p. phi ! j * (ys @ (v # out)) ! (length ys + 0 - j - 1))
            = (\<Sum>j<?p. phi ! j * ys ! (length ys - j - 1))"
      proof (rule sum.cong [OF refl])
        fix j assume "j \<in> {..<?p}"
        then have "length ys - j - 1 < length ys" using Suc.prems(2) by simp
        then show "phi ! j * (ys @ (v # out)) ! (length ys + 0 - j - 1)
                   = phi ! j * ys ! (length ys - j - 1)"
          by (simp add: nth_append)
      qed
      with 0 show ?thesis by (simp add: v_def)
    next
      case (Suc k')
      with k have "k' < n" by simp
      with f have "out ! k'
          = (\<Sum>j<?p. phi ! j * ((ys @ [v]) @ out) ! (length (ys @ [v]) + k' - j - 1))"
        by blast
      with Suc show ?thesis by simp
    qed
  qed
  with r' l show ?case by (intro exI [of _ "v # out"]) simp
qed

text \<open>
  C3. For a model fitted with finite coefficients \<open>phi\<close>, a history \<open>ys\<close> of \<open>N\<close> finite
  values, \<open>N\<close> at least the order \<open>p\<close>, and \<open>h\<close> steps, \<open>predict\<close> returns \<open>h\<close> finite
  values, and the \<open>i\<close>-th of them (\<open>1 \<le> i \<le> h\<close>) is
  \<open>\<Sum>j=1..p. phi[j-1] * y(N+i-j)\<close>, where \<open>y(1), ..., y(N)\<close> is the history and
  \<open>y(N+1), y(N+2), ...\<close> are the values returned before it (\<open>y(k)\<close> is element \<open>k - 1\<close> of
  the history followed by the output).
\<close>

theorem predict_recurrence:
  assumes "has_coeffs (self s) phi" and "y < length (arrays s)"
    and "arrays s ! y = map Num ys" and "order (self s) \<le> length ys"
  shows "\<exists>out. fst (predict s y (int h)) = Inr (map Num out) \<and> length out = h \<and>
           (\<forall>i\<in>{1..h}. out ! (i - 1)
              = (\<Sum>j = 1..order (self s). phi ! (j - 1) * (ys @ out) ! (length ys + i - j - 1)))"
proof -
  let ?p = "order (self s)"
  from roll_num [OF assms(1) assms(4), of h "[]"]
  obtain out where r: "roll (self s) h (map Num ys) [] = Inr (map Num out)"
    and l: "length out = h"
    and f: "\<forall>k<h. out ! k = (\<Sum>j<?p. phi ! j * (ys @ out) ! (length ys + k - j - 1))"
    by auto
  have "\<forall>i\<in>{1..h}. out ! (i - 1)
          = (\<Sum>j = 1..?p. phi ! (j - 1) * (ys @ out) ! (length ys + i - j - 1))"
  proof
    fix i assume "i \<in> {1..h}"
    then have i: "1 \<le> i" "i - 1 < h" by auto
    have "(\<Sum>j = 1..?p. phi ! (j - 1) * (ys @ out) ! (length ys + i - j - 1))
          = (\<Sum>j<?p. phi ! (Suc j - 1) * (ys @ out) ! (length ys + i - Suc j - 1))"
      by (rule sum.reindex_bij_witness [of _ Suc "\<lambda>j. j - 1"]) auto
    also have "\<dots> = (\<Sum>j<?p. phi ! j * (ys @ out) ! (length ys + (i - 1) - j - 1))"
      using i(1) by (intro sum.cong [OF refl]) (simp add: Suc_diff_le)
    finally show "out ! (i - 1)
          = (\<Sum>j = 1..?p. phi ! (j - 1) * (ys @ out) ! (length ys + i - j - 1))"
      using f i(2) by simp
  qed
  moreover have "fst (predict s y (int h)) = Inr (map Num out)"
    using r assms(2,3) by (simp add: predict_fst)
  ultimately show ?thesis using l by blast
qed


theorem predict_recurrence_witness:
  "\<exists>out. fst (predict example_state 0 (int 3)) = Inr (map Num out) \<and> length out = 3 \<and>
     (\<forall>i\<in>{1..3}. out ! (i - 1)
        = (\<Sum>j = 1..order (self example_state).
             [26 / 27, 35 / 27] ! (j - 1) * (example_y @ out) ! (length example_y + i - j - 1)))"
proof -
  have "has_coeffs (self example_state) [26 / 27, 35 / 27]"
    by (simp add: example_state_def example_has_coeffs)
  moreover have "(0::nat) < length (arrays example_state)"
    by (simp add: example_state_def)
  moreover have "arrays example_state ! 0 = map Num example_y"
    by (simp add: example_state_def)
  moreover have "order (self example_state) \<le> length example_y"
    by (simp add: example_state_def example_model_def example_y_def)
  ultimately show ?thesis by (rule predict_recurrence)
qed

text \<open>The values the notebook prints for its example: 23.85..., 41.11..., 70.51...\<close>

lemma example_predictions:
  "fst (predict example_state 0 3)
   = Inr [Num (644 / 27), Num (29974 / 729), Num (1387904 / 19683)]"
  by (simp add: predict_def example_state_def example_model_def example_y_def
      ar_pred_def ar_term_def np_append_def numeral_3_eq_3 upt_conv_Cons)

section \<open>The linear solver\<close>

lemma dot_Cons [simp]: "dot (a # as) (x # xs) = a * x + dot as xs"
  by (simp add: dot_def)

lemma dot_Nil [simp]: "dot [] ys = 0" "dot xs [] = 0"
  by (simp_all add: dot_def)

lemma dot_replicate_zero: "dot as (replicate n 0) = 0"
proof (induction as arbitrary: n)
  case Nil
  show ?case by simp
next
  case (Cons a as)
  show ?case by (cases n) (simp_all add: Cons.IH)
qed

lemma dot_eliminate:
  "length as = length bs \<Longrightarrow>
   dot (map2 (\<lambda>a b. b - m * a) bs as) xs = dot as xs - m * dot bs xs"
proof (induction as bs arbitrary: xs rule: list_induct2)
  case Nil
  show ?case by simp
next
  case (Cons a as b bs)
  show ?case
  proof (cases xs)
    case Nil
    then show ?thesis by simp
  next
    case (Cons x xs')
    with Cons.IH [of xs'] show ?thesis by (simp add: algebra_simps)
  qed
qed

lemma row_split:
  "length (fst r) = Suc n \<Longrightarrow> fst r = lead r # tl (fst r) \<and> length (tl (fst r)) = n"
  by (cases "fst r") (simp_all add: lead_def)

lemma pivot_split_Some:
  "pivot_split rows = Some (pr, rest) \<Longrightarrow>
   lead pr \<noteq> 0 \<and> set rows = insert pr (set rest) \<and> length rows = Suc (length rest)"
proof (induction rows arbitrary: pr rest)
  case Nil
  then show ?case by simp
next
  case (Cons r rs)
  show ?case
  proof (cases "lead r \<noteq> 0")
    case True
    with Cons.prems show ?thesis by auto
  next
    case False
    with Cons.prems obtain rest' where ps: "pivot_split rs = Some (pr, rest')"
      and rest: "rest = r # rest'"
      by (auto split: option.splits)
    from Cons.IH [OF ps] rest show ?thesis by auto
  qed
qed

lemma pivot_split_None:
  "pivot_split rows = None \<Longrightarrow> r \<in> set rows \<Longrightarrow> lead r = 0"
  by (induction rows) (auto split: if_splits option.splits)

lemma eliminate_equiv:
  assumes "lead pr \<noteq> 0" and "length (fst pr) = Suc n" and "length (fst r) = Suc n"
    and "dot (fst pr) (x # xs) = snd pr"
  shows "dot (fst (eliminate pr r)) xs = snd (eliminate pr r) \<longleftrightarrow> dot (fst r) (x # xs) = snd r"
proof -
  let ?m = "lead r / lead pr"
  from row_split [OF assms(2)] have pr: "fst pr = lead pr # tl (fst pr)"
    and lp: "length (tl (fst pr)) = n" by simp_all
  from row_split [OF assms(3)] have r: "fst r = lead r # tl (fst r)"
    and lr: "length (tl (fst r)) = n" by simp_all
  have piv: "lead pr * x + dot (tl (fst pr)) xs = snd pr"
    using assms(4) by (subst (asm) pr) simp
  have row: "dot (fst r) (x # xs) = lead r * x + dot (tl (fst r)) xs"
    by (subst r) simp
  have m: "?m * lead pr = lead r" using assms(1) by simp
  have "dot (fst (eliminate pr r)) xs = dot (tl (fst r)) xs - ?m * dot (tl (fst pr)) xs"
    using dot_eliminate [of "tl (fst r)" "tl (fst pr)" ?m xs] lp lr
    by (simp add: eliminate_def)
  also have "\<dots> = dot (tl (fst r)) xs - ?m * (snd pr - lead pr * x)"
  proof -
    from piv have "dot (tl (fst pr)) xs = snd pr - lead pr * x" by linarith
    then show ?thesis by (simp only:)
  qed
  also have "\<dots> = dot (tl (fst r)) xs - ?m * snd pr + (?m * lead pr) * x"
    by (simp only: algebra_simps)
  also have "\<dots> = dot (fst r) (x # xs) - ?m * snd pr"
    by (simp only: m row)
  finally have "dot (fst (eliminate pr r)) xs = dot (fst r) (x # xs) - ?m * snd pr" .
  moreover have "snd (eliminate pr r) = snd r - ?m * snd pr"
    by (simp add: eliminate_def)
  ultimately show ?thesis by auto
qed

lemma eliminate_length:
  "length (fst pr) = Suc n \<Longrightarrow> length (fst r) = Suc n \<Longrightarrow> length (fst (eliminate pr r)) = n"
  by (simp add: eliminate_def)

lemma solve_lin_sound:
  "solve_lin n rows = Some xs \<Longrightarrow> (\<And>r. r \<in> set rows \<Longrightarrow> length (fst r) = n) \<Longrightarrow>
   length xs = n \<and> (\<forall>r\<in>set rows. dot (fst r) xs = snd r)"
proof (induction n arbitrary: rows xs)
  case 0
  then show ?case by (auto simp: list_all_iff split: if_splits)
next
  case (Suc n)
  from Suc.prems(1) obtain pr rest xs' where ps: "pivot_split rows = Some (pr, rest)"
    and sl: "solve_lin n (map (eliminate pr) rest) = Some xs'"
    and xs: "xs = (snd pr - dot (tl (fst pr)) xs') / lead pr # xs'"
    by (auto split: option.splits)
  from pivot_split_Some [OF ps] have lp: "lead pr \<noteq> 0"
    and rows: "set rows = insert pr (set rest)" by simp_all
  have wfp: "length (fst pr) = Suc n" using Suc.prems(2) rows by simp
  have wfr: "\<And>r. r \<in> set rest \<Longrightarrow> length (fst r) = Suc n" using Suc.prems(2) rows by simp
  have "length xs' = n \<and> (\<forall>r\<in>set (map (eliminate pr) rest). dot (fst r) xs' = snd r)"
  proof (rule Suc.IH [OF sl])
    fix r assume "r \<in> set (map (eliminate pr) rest)"
    then obtain r0 where "r0 \<in> set rest" "r = eliminate pr r0" by auto
    then show "length (fst r) = n" using eliminate_length [OF wfp wfr] by simp
  qed
  then have len: "length xs' = n"
    and red: "\<And>r. r \<in> set rest \<Longrightarrow> dot (fst (eliminate pr r)) xs' = snd (eliminate pr r)"
    by simp_all
  let ?x = "(snd pr - dot (tl (fst pr)) xs') / lead pr"
  from row_split [OF wfp] have prs: "fst pr = lead pr # tl (fst pr)" by simp
  have piv: "dot (fst pr) (?x # xs') = snd pr"
    using lp by (subst prs) simp
  have "\<forall>r\<in>set rows. dot (fst r) (?x # xs') = snd r"
  proof
    fix r assume "r \<in> set rows"
    with rows have "r = pr \<or> r \<in> set rest" by auto
    then show "dot (fst r) (?x # xs') = snd r"
    proof
      assume "r = pr" with piv show ?thesis by simp
    next
      assume r: "r \<in> set rest"
      from eliminate_equiv [OF lp wfp wfr [OF r] piv] red [OF r] show ?thesis by simp
    qed
  qed
  with len xs show ?case by simp
qed

lemma solve_lin_unique:
  "solve_lin n rows = Some xs \<Longrightarrow> (\<And>r. r \<in> set rows \<Longrightarrow> length (fst r) = n) \<Longrightarrow>
   length v = n \<Longrightarrow> (\<And>r. r \<in> set rows \<Longrightarrow> dot (fst r) v = snd r) \<Longrightarrow> v = xs"
proof (induction n arbitrary: rows xs v)
  case 0
  then show ?case by (auto split: if_splits)
next
  case (Suc n)
  from Suc.prems(1) obtain pr rest xs' where ps: "pivot_split rows = Some (pr, rest)"
    and sl: "solve_lin n (map (eliminate pr) rest) = Some xs'"
    and xs: "xs = (snd pr - dot (tl (fst pr)) xs') / lead pr # xs'"
    by (auto split: option.splits)
  from pivot_split_Some [OF ps] have lp: "lead pr \<noteq> 0"
    and rows: "set rows = insert pr (set rest)" by simp_all
  have wfp: "length (fst pr) = Suc n" using Suc.prems(2) rows by simp
  have wfr: "\<And>r. r \<in> set rest \<Longrightarrow> length (fst r) = Suc n" using Suc.prems(2) rows by simp
  from Suc.prems(3) obtain x w where v: "v = x # w" and lw: "length w = n"
    by (cases v) auto
  have piv: "dot (fst pr) (x # w) = snd pr" using Suc.prems(4) [of pr] rows v by simp
  have "w = xs'"
  proof (rule Suc.IH [OF sl _ lw])
    fix r assume "r \<in> set (map (eliminate pr) rest)"
    then obtain r0 where r0: "r0 \<in> set rest" "r = eliminate pr r0" by auto
    then show "length (fst r) = n" using eliminate_length [OF wfp wfr] by simp
    have "dot (fst r0) (x # w) = snd r0" using Suc.prems(4) [of r0] rows r0(1) v by simp
    with eliminate_equiv [OF lp wfp wfr [OF r0(1)] piv] r0(2)
    show "dot (fst r) w = snd r" by simp
  qed
  moreover from row_split [OF wfp] have prs: "fst pr = lead pr # tl (fst pr)" by simp
  have "lead pr * x + dot (tl (fst pr)) w = snd pr"
    using piv by (subst (asm) prs) simp
  then have "x = (snd pr - dot (tl (fst pr)) w) / lead pr"
    using lp by (simp add: field_simps)
  ultimately show ?case using v xs by simp
qed

lemma eliminate_fst:
  "fst (eliminate (fst pr, c) (fst r, d)) = fst (eliminate pr r)"
  by (simp add: eliminate_def lead_def)

lemma eliminate_hom:
  assumes "lead pr \<noteq> 0" and "length (fst pr) = Suc n" and "length (fst r) = Suc n"
    and "dot (fst pr) (x # xs) = 0"
  shows "dot (fst (eliminate pr r)) xs = 0 \<longleftrightarrow> dot (fst r) (x # xs) = 0"
proof -
  have "lead (fst pr, 0::real) \<noteq> 0" using assms(1) by (simp add: lead_def)
  from eliminate_equiv [of "(fst pr, 0)" n "(fst r, 0)" x xs, OF this] assms(2-4)
  have "dot (fst (eliminate (fst pr, 0) (fst r, 0))) xs = snd (eliminate (fst pr, 0) (fst r, 0))
        \<longleftrightarrow> dot (fst r) (x # xs) = 0"
    by simp
  moreover have "snd (eliminate (fst pr, 0) (fst r, 0)) = 0"
    by (simp add: eliminate_def)
  ultimately show ?thesis by (simp add: eliminate_fst)
qed

lemma solve_lin_complete:
  "(\<And>r. r \<in> set rows \<Longrightarrow> length (fst r) = n) \<Longrightarrow> length rows = n \<Longrightarrow>
   (\<And>v. length v = n \<Longrightarrow> (\<And>r. r \<in> set rows \<Longrightarrow> dot (fst r) v = 0) \<Longrightarrow> v = replicate n 0) \<Longrightarrow>
   \<exists>xs. solve_lin n rows = Some xs"
proof (induction n arbitrary: rows)
  case 0
  then show ?case by simp
next
  case (Suc n)
  show ?case
  proof (cases "pivot_split rows")
    case None
    have "1 # replicate n 0 = replicate (Suc n) (0::real)"
    proof (rule Suc.prems(3))
      show "length (1 # replicate n (0::real)) = Suc n" by simp
    next
      fix r assume r: "r \<in> set rows"
      from row_split [OF Suc.prems(1) [OF r]] have "fst r = lead r # tl (fst r)" by simp
      moreover have "lead r = 0" by (rule pivot_split_None [OF None r])
      ultimately have "fst r = 0 # tl (fst r)" by simp
      then have "dot (fst r) (1 # replicate n 0) = dot (0 # tl (fst r)) (1 # replicate n 0)"
        by simp
      then show "dot (fst r) (1 # replicate n 0) = 0"
        by (simp add: dot_replicate_zero)
    qed
    then show ?thesis by simp
  next
    case (Some a)
    obtain pr rest where a: "a = (pr, rest)" by (cases a)
    with Some have ps: "pivot_split rows = Some (pr, rest)" by simp
    from pivot_split_Some [OF ps] have lp: "lead pr \<noteq> 0"
      and rows: "set rows = insert pr (set rest)"
      and len: "length rows = Suc (length rest)" by simp_all
    have wfp: "length (fst pr) = Suc n" using Suc.prems(1) rows by simp
    have wfr: "\<And>r. r \<in> set rest \<Longrightarrow> length (fst r) = Suc n" using Suc.prems(1) rows by simp
    from row_split [OF wfp] have prs: "fst pr = lead pr # tl (fst pr)" by simp
    have "\<exists>xs. solve_lin n (map (eliminate pr) rest) = Some xs"
    proof (rule Suc.IH)
      fix r assume "r \<in> set (map (eliminate pr) rest)"
      then obtain r0 where "r0 \<in> set rest" "r = eliminate pr r0" by auto
      then show "length (fst r) = n" using eliminate_length [OF wfp wfr] by simp
    next
      show "length (map (eliminate pr) rest) = n" using len Suc.prems(2) by simp
    next
      fix w assume lw: "length w = n"
        and ker: "\<And>r. r \<in> set (map (eliminate pr) rest) \<Longrightarrow> dot (fst r) w = 0"
      let ?x = "- dot (tl (fst pr)) w / lead pr"
      have piv: "dot (fst pr) (?x # w) = 0"
        using lp by (subst prs) simp
      have "?x # w = replicate (Suc n) 0"
      proof (rule Suc.prems(3))
        show "length (?x # w) = Suc n" using lw by simp
      next
        fix r assume "r \<in> set rows"
        with rows have "r = pr \<or> r \<in> set rest" by auto
        then show "dot (fst r) (?x # w) = 0"
        proof
          assume "r = pr" with piv show ?thesis by simp
        next
          assume r: "r \<in> set rest"
          then have "dot (fst (eliminate pr r)) w = 0" by (intro ker) simp
          with eliminate_hom [OF lp wfp wfr [OF r] piv] show ?thesis by simp
        qed
      qed
      then show "w = replicate n 0" by simp
    qed
    then obtain xs where "solve_lin n (map (eliminate pr) rest) = Some xs" by blast
    with ps show ?thesis by simp
  qed
qed

section \<open>The normal equations as sums\<close>

lemma dot_map:
  "dot (map f ts) (map g ts) = sum_list (map (\<lambda>t. f t * g t) ts)"
  by (induction ts) simp_all

lemma dot_map_upt:
  "dot (map f [a..<Suc b]) (map g [a..<Suc b]) = (\<Sum>i = a..b. f i * g i)"
  by (simp only: dot_map interv_sum_list_conv_sum_set_nat set_upt atLeastLessThanSuc_atLeastAtMost)

lemma design_column:
  assumes "j < p"
  shows "map (\<lambda>r. r ! j) (design_matrix p y)
         = map (\<lambda>t. y_sym y (t - j - 1)) [p + 1..<Suc (length y)]"
proof -
  have "\<And>t. map (\<lambda>j. y_sym y (t - j)) [1..<p + 1] ! j = y_sym y (t - j - 1)"
  proof -
    fix t
    have "map (\<lambda>j. y_sym y (t - j)) [1..<p + 1] ! j = y_sym y (t - (1 + j))"
      by (rule nth_map_upt) (use assms in simp)
    then show "map (\<lambda>j. y_sym y (t - j)) [1..<p + 1] ! j = y_sym y (t - j - 1)"
      by (simp only: diff_diff_left add.commute)
  qed
  then show ?thesis by (simp only: design_matrix_def map_map o_def Suc_eq_plus1)
qed

lemma transpose_design:
  "mat_transpose p (design_matrix p y)
   = map (\<lambda>j. map (\<lambda>t. y_sym y (t - j - 1)) [p + 1..<Suc (length y)]) [0..<p]"
  unfolding mat_transpose_def
  by (rule map_cong [OF refl]) (simp add: design_column)

lemma XtX_sums:
  "XtX p y = map (\<lambda>j. map (\<lambda>k. \<Sum>i = p + 1..length y.
                 y_sym y (i - k - 1) * y_sym y (i - j - 1)) [0..<p]) [0..<p]"
proof -
  let ?col = "\<lambda>j. map (\<lambda>t. y_sym y (t - j - 1)) [p + 1..<Suc (length y)]"
  have "XtX p y = map (\<lambda>j. map (\<lambda>k. dot (?col j) (?col k)) [0..<p]) [0..<p]"
    by (simp add: XtX_def mat_mul_def transpose_design o_def)
  also have "\<dots> = map (\<lambda>j. map (\<lambda>k. \<Sum>i = p + 1..length y.
                 y_sym y (i - k - 1) * y_sym y (i - j - 1)) [0..<p]) [0..<p]"
    by (simp only: dot_map_upt mult.commute)
  finally show ?thesis .
qed

lemma Xt_target_sums:
  "mat_vec (mat_transpose p (design_matrix p y)) (target p y)
   = map (\<lambda>j. \<Sum>i = p + 1..length y. y_sym y i * y_sym y (i - j - 1)) [0..<p]"
proof -
  let ?col = "\<lambda>j. map (\<lambda>t. y_sym y (t - j - 1)) [p + 1..<Suc (length y)]"
  have "mat_vec (mat_transpose p (design_matrix p y)) (target p y)
        = map (\<lambda>j. dot (?col j) (map (y_sym y) [p + 1..<Suc (length y)])) [0..<p]"
    by (simp add: mat_vec_def transpose_design target_def o_def)
  also have "\<dots> = map (\<lambda>j. \<Sum>i = p + 1..length y. y_sym y i * y_sym y (i - j - 1)) [0..<p]"
    by (simp only: dot_map_upt mult.commute)
  finally show ?thesis .
qed

lemma normal_rows_sums:
  "normal_rows p y =
     map (\<lambda>j. (map (\<lambda>k. \<Sum>i = p + 1..length y. y_sym y (i - k - 1) * y_sym y (i - j - 1)) [0..<p],
               \<Sum>i = p + 1..length y. y_sym y i * y_sym y (i - j - 1)))
         [0..<p]"
  unfolding normal_rows_def XtX_sums Xt_target_sums
  by (simp add: zip_map_map zip_same_conv_map)

lemma normal_rows_wf:
  "length (normal_rows p y) = p" "r \<in> set (normal_rows p y) \<Longrightarrow> length (fst r) = p"
  by (auto simp: normal_rows_sums)

lemma normal_rows_fst: "map fst (normal_rows p y) = XtX p y"
  by (simp add: normal_rows_sums XtX_sums o_def)

lemma normal_rows_snd:
  "map snd (normal_rows p y) = mat_vec (mat_transpose p (design_matrix p y)) (target p y)"
  by (simp add: normal_rows_sums Xt_target_sums o_def)

lemma normal_equations_rows:
  "normal_equations p y phi \<longleftrightarrow> (\<forall>r\<in>set (normal_rows p y). dot (fst r) phi = snd r)"
proof -
  have "normal_equations p y phi
        \<longleftrightarrow> map (\<lambda>r. dot (fst r) phi) (normal_rows p y) = map snd (normal_rows p y)"
    by (simp only: normal_equations_def normal_rows_snd normal_rows_fst [symmetric])
       (simp add: mat_vec_def o_def)
  then show ?thesis by simp
qed

lemma kernel_rows:
  "mat_vec (XtX p y) v = replicate p 0 \<longleftrightarrow> (\<forall>r\<in>set (normal_rows p y). dot (fst r) v = 0)"
proof -
  have "replicate p (0::real) = map (\<lambda>r. 0) (normal_rows p y)"
    by (simp add: map_replicate_const normal_rows_wf)
  then show ?thesis
    by (simp add: normal_rows_fst [symmetric] mat_vec_def o_def)
qed

section \<open>The equations of \<open>fit\<close> are the normal equations\<close>

lemma dot_coeffs:
  assumes "length phi = p"
  shows "dot (map f [0..<p]) phi = (\<Sum>k<p. f k * phi ! k)"
proof -
  have "phi = map (\<lambda>k. phi ! k) [0..<p]"
    by (simp only: assms [symmetric] map_nth)
  then have "dot (map f [0..<p]) phi = dot (map f [0..<p]) (map (\<lambda>k. phi ! k) [0..<p])"
    by simp
  also have "\<dots> = sum_list (map (\<lambda>k. f k * phi ! k) [0..<p])"
    by (rule dot_map)
  also have "\<dots> = (\<Sum>k<p. f k * phi ! k)"
    by (simp add: interv_sum_list_conv_sum_set_nat atLeast0LessThan)
  finally show ?thesis .
qed

lemma dot_scale: "dot (map ((*) c) xs) v = c * dot xs v"
proof (induction xs arbitrary: v)
  case Nil
  show ?case by simp
next
  case (Cons a xs)
  show ?case
  proof (cases v)
    case Nil
    then show ?thesis by simp
  next
    case (Cons b w)
    have "dot (map ((*) c) (a # xs)) (b # w) = c * a * b + dot (map ((*) c) xs) w"
      by simp
    also have "\<dots> = c * a * b + c * dot xs w" by (simp only: Cons.IH)
    also have "\<dots> = c * dot (a # xs) (b # w)" by (simp add: algebra_simps)
    finally show ?thesis using Cons by simp
  qed
qed

lemma normal_rows_nth:
  "j < p \<Longrightarrow> normal_rows p y ! j
     = (map (\<lambda>k. \<Sum>i = p + 1..length y. y_sym y (i - k - 1) * y_sym y (i - j - 1)) [0..<p],
        \<Sum>i = p + 1..length y. y_sym y i * y_sym y (i - j - 1))"
  by (simp add: normal_rows_sums)

text \<open>The sum in the numerator is linear in the coefficients, with the row of the normal equations.\<close>

lemma residual_sum_linear:
  assumes "length phi = p" and "j < p"
  shows "(\<Sum>i = p + 1..length y. residual p y phi i * y_sym y (i - j - 1))
         = snd (normal_rows p y ! j) - dot (fst (normal_rows p y ! j)) phi"
proof -
  let ?I = "{p + 1..length y}"
  let ?u = "\<lambda>i. y_sym y (i - j - 1)"
  note row = normal_rows_nth [OF assms(2), of y]
  have "(\<Sum>i\<in>?I. residual p y phi i * ?u i)
        = (\<Sum>i\<in>?I. y_sym y i * ?u i - (\<Sum>k<p. phi ! k * y_sym y (i - k - 1)) * ?u i)"
    by (simp add: residual_def algebra_simps)
  also have "\<dots> = (\<Sum>i\<in>?I. y_sym y i * ?u i)
                  - (\<Sum>i\<in>?I. (\<Sum>k<p. phi ! k * y_sym y (i - k - 1)) * ?u i)"
    by (rule sum_subtractf)
  also have "(\<Sum>i\<in>?I. (\<Sum>k<p. phi ! k * y_sym y (i - k - 1)) * ?u i)
             = (\<Sum>i\<in>?I. \<Sum>k<p. y_sym y (i - k - 1) * ?u i * phi ! k)"
    by (intro sum.cong refl) (simp add: sum_distrib_right sum_distrib_left mult_ac)
  also have "\<dots> = (\<Sum>k<p. \<Sum>i\<in>?I. y_sym y (i - k - 1) * ?u i * phi ! k)"
    by (rule sum.swap)
  also have "\<dots> = (\<Sum>k<p. (\<Sum>i\<in>?I. y_sym y (i - k - 1) * ?u i) * phi ! k)"
    by (simp add: sum_distrib_right)
  also have "\<dots> = dot (fst (normal_rows p y ! j)) phi"
    by (simp add: row dot_coeffs [OF assms(1)])
  finally show ?thesis by (simp add: row)
qed

lemma diff_numer_affine:
  assumes "length phi = p" and "j < p"
  shows "diff_numer p y phi j
         = row_factor p (length y)
           * (dot (fst (normal_rows p y ! j)) phi - snd (normal_rows p y ! j))"
proof -
  let ?I = "{p + 1..length y}"
  have "(\<Sum>i\<in>?I. 2 * residual p y phi i * (- y_sym y (i - j - 1)))
        = - 2 * (\<Sum>i\<in>?I. residual p y phi i * y_sym y (i - j - 1))"
    by (simp add: sum_distrib_left sum_negf mult.assoc)
  also have "\<dots> = 2 * (dot (fst (normal_rows p y ! j)) phi - snd (normal_rows p y ! j))"
    by (simp only: residual_sum_linear [OF assms]) simp
  finally show ?thesis
    by (simp add: diff_numer_def row_factor_def)
qed

lemma dot_unit:
  assumes "k < p"
  shows "dot (map f [0..<p]) ((replicate p 0)[k := 1]) = f k"
proof -
  have "dot (map f [0..<p]) ((replicate p 0)[k := 1])
        = (\<Sum>k'<p. f k' * (replicate p 0)[k := 1] ! k')"
    by (rule dot_coeffs) simp
  also have "\<dots> = (\<Sum>k'<p. if k' = k then f k' else 0)"
    by (rule sum.cong [OF refl]) (simp add: nth_list_update)
  also have "\<dots> = f k"
    using assms by (simp add: sum.delta')
  finally show ?thesis .
qed

lemma equations_scaled:
  "equations p y = map (scale_row (row_factor p (length y))) (normal_rows p y)"
proof -
  let ?K = "row_factor p (length y)"
  let ?A = "\<lambda>j k. \<Sum>i = p + 1..length y. y_sym y (i - k - 1) * y_sym y (i - j - 1)"
  let ?b = "\<lambda>j. \<Sum>i = p + 1..length y. y_sym y i * y_sym y (i - j - 1)"
  have zero: "diff_numer p y (replicate p 0) j = - (?K * ?b j)" if "j < p" for j
    using diff_numer_affine [of "replicate p 0" p j y] that
    by (simp add: normal_rows_nth dot_replicate_zero)
  have unit: "diff_numer p y ((replicate p 0)[k := 1]) j = ?K * (?A j k - ?b j)"
    if "j < p" "k < p" for j k
    using diff_numer_affine [of "(replicate p 0)[k := 1]" p j y] that
    by (simp add: normal_rows_nth dot_unit)
  have "equations p y = map (\<lambda>j. (map (\<lambda>k. ?K * ?A j k) [0..<p], ?K * ?b j)) [0..<p]"
    unfolding equations_def
  proof (rule map_cong [OF refl])
    fix j assume "j \<in> set [0..<p]"
    then have j: "j < p" by simp
    have "map (\<lambda>k. diff_numer p y ((replicate p 0)[k := 1]) j - diff_numer p y (replicate p 0) j) [0..<p]
          = map (\<lambda>k. ?K * ?A j k) [0..<p]"
      by (rule map_cong [OF refl]) (simp add: zero [OF j] unit [OF j] algebra_simps)
    then show "(map (\<lambda>k. diff_numer p y ((replicate p 0)[k := 1]) j
                         - diff_numer p y (replicate p 0) j) [0..<p],
                - diff_numer p y (replicate p 0) j)
               = (map (\<lambda>k. ?K * ?A j k) [0..<p], ?K * ?b j)"
      by (simp add: zero [OF j])
  qed
  also have "\<dots> = map (scale_row ?K) (normal_rows p y)"
    by (simp add: normal_rows_sums scale_row_def o_def)
  finally show ?thesis .
qed

lemma lead_scale: "lead (scale_row c r) = c * lead r"
  by (cases "fst r") (simp_all add: lead_def scale_row_def)

lemma pivot_split_scale:
  assumes "c \<noteq> 0"
  shows "pivot_split (map (scale_row c) rows)
         = map_option (\<lambda>(pr, rest). (scale_row c pr, map (scale_row c) rest)) (pivot_split rows)"
  using assms by (induction rows) (auto simp: lead_scale split: option.splits)

lemma tl_scaled: "tl (map ((*) c) xs) = map ((*) (c::real)) (tl xs)"
  by (cases xs) simp_all

lemma eliminate_scale:
  assumes "c \<noteq> 0"
  shows "eliminate (scale_row c pr) (scale_row c r) = scale_row c (eliminate pr r)"
proof -
  let ?m = "lead r / lead pr"
  have m: "lead (scale_row c r) / lead (scale_row c pr) = ?m"
    using assms by (simp add: lead_scale)
  have "map2 (\<lambda>a b. b - ?m * a) (map ((*) c) as) (map ((*) c) bs)
        = map ((*) c) (map2 (\<lambda>a b. b - ?m * a) as bs)" for as bs :: "real list"
    by (auto simp: zip_map_map algebra_simps)
  then show ?thesis
    by (simp add: eliminate_def m Let_def) (simp add: scale_row_def tl_scaled algebra_simps)
qed

lemma solve_lin_scale:
  "c \<noteq> 0 \<Longrightarrow> solve_lin n (map (scale_row c) rows) = solve_lin n rows"
proof (induction n arbitrary: rows)
  case 0
  then show ?case by (simp add: list_all_iff scale_row_def)
next
  case (Suc n)
  show ?case
  proof (cases "pivot_split rows")
    case None
    then show ?thesis by (simp add: pivot_split_scale [OF Suc.prems])
  next
    case (Some a)
    obtain pr rest where a: "a = (pr, rest)" by (cases a)
    have "map (eliminate (scale_row c pr) \<circ> scale_row c) rest
               = map (scale_row c) (map (eliminate pr) rest)"
      by (simp add: eliminate_scale [OF Suc.prems])
    then have ih: "solve_lin n (map (eliminate (scale_row c pr) \<circ> scale_row c) rest)
              = solve_lin n (map (eliminate pr) rest)"
      by (simp only: Suc.IH [OF Suc.prems])
    have hd: "(snd (scale_row c pr) - dot (tl (fst (scale_row c pr))) xs) / lead (scale_row c pr)
              = (snd pr - dot (tl (fst pr)) xs) / lead pr" for xs
    proof -
      have "snd (scale_row c pr) - dot (tl (fst (scale_row c pr))) xs
            = c * (snd pr - dot (tl (fst pr)) xs)"
        by (simp add: scale_row_def tl_scaled dot_scale right_diff_distrib)
      then show ?thesis using Suc.prems by (simp add: lead_scale)
    qed
    show ?thesis
      using Some a by (simp add: pivot_split_scale [OF Suc.prems] ih hd split: option.splits)
  qed
qed

lemma row_factor_nonzero: "2 * p < N \<Longrightarrow> row_factor p N \<noteq> 0"
  by (simp add: row_factor_def)

lemma solve_equations:
  "2 * p < length y \<Longrightarrow> solve_lin p (equations p y) = solve_lin p (normal_rows p y)"
  by (simp only: equations_scaled solve_lin_scale [OF row_factor_nonzero])

section \<open>When the equations determine the coefficients\<close>

lemma dot_add:
  "length xs = length v \<Longrightarrow> dot r (map2 (+) xs v) = dot r xs + dot r v"
proof (induction xs v arbitrary: r rule: list_induct2)
  case Nil
  show ?case by simp
next
  case (Cons x xs a v)
  show ?case by (cases r) (simp_all add: Cons.IH algebra_simps)
qed

text \<open>Where the solver finds a solution, the homogeneous system has only the zero solution.\<close>

lemma solve_lin_kernel:
  assumes "solve_lin n rows = Some sol" and wf: "\<And>r. r \<in> set rows \<Longrightarrow> length (fst r) = n"
    and lv: "length v = n" and ker: "\<And>r. r \<in> set rows \<Longrightarrow> dot (fst r) v = 0"
  shows "v = replicate n 0"
proof -
  from solve_lin_sound [OF assms(1) wf] have ls: "length sol = n"
    and sat: "\<forall>r\<in>set rows. dot (fst r) sol = snd r"
    by simp_all
  have "map2 (+) sol v = sol"
  proof (rule solve_lin_unique [OF assms(1) wf])
    show "length (map2 (+) sol v) = n" using ls lv by simp
  next
    fix r assume r: "r \<in> set rows"
    with sat ker show "dot (fst r) (map2 (+) sol v) = snd r"
      using ls lv by (simp add: dot_add)
  qed
  then have "\<forall>i<n. sol ! i + v ! i = sol ! i"
    using ls lv by (metis (no_types, lifting) length_map length_zip min.idem nth_map nth_zip
        old.prod.case)
  then have "\<forall>i<n. v ! i = 0" by simp
  with lv show "v = replicate n 0" by (simp add: list_eq_iff_nth_eq)
qed

text \<open>Fewer equations than unknowns: the homogeneous system has a non-zero solution.\<close>

lemma underdetermined:
  fixes rows :: "row list"
  shows "length rows < n \<Longrightarrow> (\<And>r. r \<in> set rows \<Longrightarrow> length (fst r) = n) \<Longrightarrow>
   \<exists>v. length v = n \<and> v \<noteq> replicate n 0 \<and> (\<forall>r\<in>set rows. dot (fst r) v = 0)"
proof (induction n arbitrary: rows)
  case 0
  then show ?case by simp
next
  case (Suc n)
  show ?case
  proof (cases "pivot_split rows")
    case None
    let ?v = "1 # replicate n (0::real)"
    have "\<forall>r\<in>set rows. dot (fst r) ?v = 0"
    proof
      fix r assume r: "r \<in> set rows"
      from row_split [OF Suc.prems(2) [OF r]] have "fst r = lead r # tl (fst r)" by simp
      moreover have "lead r = 0" by (rule pivot_split_None [OF None r])
      ultimately have "fst r = 0 # tl (fst r)" by simp
      then have "dot (fst r) ?v = dot (0 # tl (fst r)) ?v" by simp
      then show "dot (fst r) ?v = 0" by (simp add: dot_replicate_zero)
    qed
    moreover have "length ?v = Suc n" "?v \<noteq> replicate (Suc n) 0" by simp_all
    ultimately show ?thesis by blast
  next
    case (Some a)
    obtain pr rest where a: "a = (pr, rest)" by (cases a)
    with Some have ps: "pivot_split rows = Some (pr, rest)" by simp
    from pivot_split_Some [OF ps] have lp: "lead pr \<noteq> 0"
      and rows: "set rows = insert pr (set rest)"
      and len: "length rows = Suc (length rest)" by simp_all
    have wfp: "length (fst pr) = Suc n" using Suc.prems(2) rows by simp
    have wfr: "\<And>r. r \<in> set rest \<Longrightarrow> length (fst r) = Suc n" using Suc.prems(2) rows by simp
    from row_split [OF wfp] have prs: "fst pr = lead pr # tl (fst pr)" by simp
    have "\<exists>w. length w = n \<and> w \<noteq> replicate n 0
              \<and> (\<forall>r\<in>set (map (eliminate pr) rest). dot (fst r) w = 0)"
    proof (rule Suc.IH)
      show "length (map (eliminate pr) rest) < n" using len Suc.prems(1) by simp
    next
      fix r assume "r \<in> set (map (eliminate pr) rest)"
      then obtain r0 where "r0 \<in> set rest" "r = eliminate pr r0" by auto
      then show "length (fst r) = n" using eliminate_length [OF wfp wfr] by simp
    qed
    then obtain w where lw: "length w = n" and nz: "w \<noteq> replicate n 0"
      and ker: "\<And>r. r \<in> set rest \<Longrightarrow> dot (fst (eliminate pr r)) w = 0"
      by auto
    let ?x = "- dot (tl (fst pr)) w / lead pr"
    have piv: "dot (fst pr) (?x # w) = 0"
      using lp by (subst prs) simp
    have "\<forall>r\<in>set rows. dot (fst r) (?x # w) = 0"
    proof
      fix r assume "r \<in> set rows"
      with rows have "r = pr \<or> r \<in> set rest" by auto
      then show "dot (fst r) (?x # w) = 0"
      proof
        assume "r = pr" with piv show ?thesis by simp
      next
        assume r: "r \<in> set rest"
        from eliminate_hom [OF lp wfp wfr [OF r] piv] ker [OF r] show ?thesis by simp
      qed
    qed
    moreover have "length (?x # w) = Suc n" using lw by simp
    moreover have "?x # w \<noteq> replicate (Suc n) 0" using nz by simp
    ultimately show ?thesis by blast
  qed
qed

lemma design_row_dot:
  assumes "length v = p"
  shows "dot (map (\<lambda>j. y_sym y (t - j)) [1..<p + 1]) v = (\<Sum>k<p. y_sym y (t - k - 1) * v ! k)"
proof -
  have "map (\<lambda>j. y_sym y (t - j)) [1..<p + 1] = map (\<lambda>k. y_sym y (t - k - 1)) [0..<p]"
    by (simp add: map_Suc_upt [symmetric] del: upt_Suc)
  then show ?thesis by (simp only: dot_coeffs [OF assms])
qed

lemma design_kernel:
  assumes lv: "length v = p" and ker: "\<And>r. r \<in> set (design_matrix p y) \<Longrightarrow> dot r v = 0"
    and r: "r \<in> set (normal_rows p y)"
  shows "dot (fst r) v = 0"
proof -
  let ?I = "{p + 1..length y}"
  from r obtain j where j: "j < p" and rj: "r = normal_rows p y ! j"
    using normal_rows_wf(1) [of p y] by (metis in_set_conv_nth)
  have row: "(\<Sum>k<p. y_sym y (i - k - 1) * v ! k) = 0" if "i \<in> ?I" for i
  proof -
    from that have "i \<in> set [p + 1..<length y + 1]" by (simp del: upt_Suc)
    then have "map (\<lambda>j. y_sym y (i - j)) [1..<p + 1] \<in> set (design_matrix p y)"
      by (simp only: design_matrix_def set_map) (rule imageI)
    from ker [OF this] show ?thesis by (simp only: design_row_dot [OF lv])
  qed
  have "dot (fst r) v = (\<Sum>k<p. (\<Sum>i\<in>?I. y_sym y (i - k - 1) * y_sym y (i - j - 1)) * v ! k)"
    by (simp add: rj normal_rows_nth [OF j] dot_coeffs [OF lv])
  also have "\<dots> = (\<Sum>k<p. \<Sum>i\<in>?I. y_sym y (i - j - 1) * (y_sym y (i - k - 1) * v ! k))"
    by (intro sum.cong refl) (simp add: sum_distrib_right sum_distrib_left mult_ac)
  also have "\<dots> = (\<Sum>i\<in>?I. \<Sum>k<p. y_sym y (i - j - 1) * (y_sym y (i - k - 1) * v ! k))"
    by (rule sum.swap)
  also have "\<dots> = (\<Sum>i\<in>?I. y_sym y (i - j - 1) * (\<Sum>k<p. y_sym y (i - k - 1) * v ! k))"
    by (simp add: sum_distrib_left)
  also have "\<dots> = (\<Sum>i\<in>?I. 0)"
    by (rule sum.cong [OF refl]) (simp only: row mult_zero_right)
  finally show ?thesis by simp
qed

lemma equations_wf:
  "length (equations p y) = p" "r \<in> set (equations p y) \<Longrightarrow> length (fst r) = p"
  by (auto simp: equations_def)

lemma equations_kernel:
  assumes "\<And>r. r \<in> set (normal_rows p y) \<Longrightarrow> dot (fst r) v = 0"
    and "r \<in> set (equations p y)"
  shows "dot (fst r) v = 0"
proof -
  from assms(2) obtain r0 where "r0 \<in> set (normal_rows p y)"
    and "r = scale_row (row_factor p (length y)) r0"
    by (auto simp: equations_scaled)
  with assms(1) show ?thesis by (simp add: scale_row_def dot_scale)
qed

text \<open>With \<open>N < 2p\<close> there are fewer than \<open>p\<close> residuals: no data determine the coefficients.\<close>

lemma short_unsolved:
  assumes "N < 2 * p" and "length y = N"
  shows "solve_lin p (equations p y) = None"
proof (cases "solve_lin p (equations p y)")
  case None
  then show ?thesis .
next
  case (Some sol)
  let ?rows = "map (\<lambda>r. (r, 0::real)) (design_matrix p y)"
  have "length (design_matrix p y) = length y + 1 - (p + 1)"
    by (simp only: design_matrix_def length_map length_upt)
  then have "length ?rows < p" using assms by simp
  moreover have "\<And>r. r \<in> set ?rows \<Longrightarrow> length (fst r) = p"
    by (auto simp: design_matrix_def simp del: upt_Suc)
  ultimately obtain v where lv: "length v = p" and nz: "v \<noteq> replicate p 0"
    and ker: "\<forall>r\<in>set ?rows. dot (fst r) v = 0"
    using underdetermined [of ?rows p] by blast
  from ker have dk: "\<And>r. r \<in> set (design_matrix p y) \<Longrightarrow> dot r v = 0" by simp
  have "v = replicate p 0"
  proof (rule solve_lin_kernel [OF Some _ lv])
    fix r assume "r \<in> set (equations p y)"
    then show "length (fst r) = p" by (rule equations_wf)
  next
    fix r assume "r \<in> set (equations p y)"
    then show "dot (fst r) v = 0"
      by (rule equations_kernel [rotated]) (rule design_kernel [OF lv dk])
  qed
  with nz show ?thesis by simp
qed

lemma nonsingular_iff:
  "nonsingular_design p y \<longleftrightarrow> (\<exists>sol. solve_lin p (normal_rows p y) = Some sol)"
proof
  assume ns: "nonsingular_design p y"
  show "\<exists>sol. solve_lin p (normal_rows p y) = Some sol"
  proof (rule solve_lin_complete)
    fix r assume "r \<in> set (normal_rows p y)"
    then show "length (fst r) = p" by (rule normal_rows_wf)
  next
    show "length (normal_rows p y) = p" by (rule normal_rows_wf)
  next
    fix v assume "length v = p" and "\<And>r. r \<in> set (normal_rows p y) \<Longrightarrow> dot (fst r) v = 0"
    with ns show "v = replicate p 0"
      by (simp add: nonsingular_design_def kernel_rows)
  qed
next
  assume "\<exists>sol. solve_lin p (normal_rows p y) = Some sol"
  then obtain sol where sol: "solve_lin p (normal_rows p y) = Some sol" by blast
  show "nonsingular_design p y"
    unfolding nonsingular_design_def
  proof (intro allI impI)
    fix v assume lv: "length v = p" and ker: "mat_vec (XtX p y) v = replicate p 0"
    show "v = replicate p 0"
    proof (rule solve_lin_kernel [OF sol _ lv])
      fix r assume "r \<in> set (normal_rows p y)"
      then show "length (fst r) = p" by (rule normal_rows_wf)
    next
      fix r assume "r \<in> set (normal_rows p y)"
      with ker show "dot (fst r) v = 0" by (simp add: kernel_rows)
    qed
  qed
qed

lemma zero_factor_unsolved:
  assumes "row_factor p (length y) = 0" and "0 < p"
  shows "solve_lin p (equations p y) = None"
proof (cases "solve_lin p (equations p y)")
  case None
  then show ?thesis .
next
  case (Some sol)
  from assms(2) obtain m where p: "p = Suc m" by (cases p) auto
  let ?v = "1 # replicate m (0::real)"
  have "?v = replicate p 0"
  proof (rule solve_lin_kernel [OF Some])
    fix r assume "r \<in> set (equations p y)"
    then show "length (fst r) = p" by (rule equations_wf)
  next
    show "length ?v = p" by (simp add: p)
  next
    fix r assume "r \<in> set (equations p y)"
    then obtain r0 where "r = scale_row 0 r0"
      by (auto simp: equations_scaled assms(1))
    then show "dot (fst r) ?v = 0"
      using dot_scale [of 0 "fst r0" ?v] by (simp add: scale_row_def)
  qed
  then show ?thesis by (simp add: p)
qed

lemma unsolved:
  assumes "0 < p" and "length y \<le> 2 * p"
  shows "solve_lin p (equations p y) = None"
proof (cases "length y = 2 * p")
  case True
  then have "row_factor p (length y) = 0" by (simp add: row_factor_def)
  then show ?thesis using assms(1) by (rule zero_factor_unsolved)
next
  case False
  with assms(2) have "length y < 2 * p" by simp
  then show ?thesis by (rule short_unsolved) simp
qed

text \<open>
  With \<open>N > 2p\<close> some data determine the coefficients: a single 1 at position \<open>p\<close> gives
  the identity for \<open>X\<^sup>T X\<close>.
\<close>

lemma impulse_y_sym:
  assumes "0 < p" and "p \<le> N" and "1 \<le> m" and "m \<le> N"
  shows "y_sym ((replicate N 0)[p - 1 := 1]) m = (if m = p then 1 else 0)"
  using assms by (auto simp: y_sym_def nth_list_update)

lemma impulse_rows:
  assumes "0 < p" and "2 * p < N" and "j < p"
  shows "fst (normal_rows p ((replicate N 0)[p - 1 := 1]) ! j)
         = map (\<lambda>k. if k = j then 1 else 0) [0..<p]"
proof -
  let ?y = "(replicate N 0)[p - 1 := 1]"
  have "(\<Sum>i = p + 1..length ?y. y_sym ?y (i - k - 1) * y_sym ?y (i - j - 1))
        = (if k = j then 1 else 0)" if k: "k < p" for k
  proof -
    have "(\<Sum>i = p + 1..length ?y. y_sym ?y (i - k - 1) * y_sym ?y (i - j - 1))
          = (\<Sum>i = p + 1..N. if i = p + j + 1 then (if k = j then 1 else 0) else 0)"
    proof (rule sum.cong)
      show "{p + 1..length ?y} = {p + 1..N}" by simp
    next
      fix i assume "i \<in> {p + 1..N}"
      then have i: "p + 1 \<le> i" "i \<le> N" by simp_all
      have a: "y_sym ?y (i - k - 1) = (if i - k - 1 = p then 1 else 0)"
        by (rule impulse_y_sym) (use assms k i in simp_all)
      have b: "y_sym ?y (i - j - 1) = (if i - j - 1 = p then 1 else 0)"
        by (rule impulse_y_sym) (use assms i in simp_all)
      show "y_sym ?y (i - k - 1) * y_sym ?y (i - j - 1)
            = (if i = p + j + 1 then (if k = j then 1 else 0) else 0)"
        unfolding a b using assms k i by auto
    qed
    also have "\<dots> = (if k = j then 1 else 0)"
      using assms by (simp add: sum.delta)
    finally show ?thesis .
  qed
  then show ?thesis
    by (simp add: normal_rows_nth [OF assms(3)])
qed

lemma impulse_solved:
  assumes "0 < p" and "2 * p < N"
  shows "solve_lin p (equations p ((replicate N 0)[p - 1 := 1])) \<noteq> None"
proof -
  let ?y = "(replicate N 0)[p - 1 := 1]"
  have "nonsingular_design p ?y"
    unfolding nonsingular_design_def
  proof (intro allI impI)
    fix v assume lv: "length v = p" and ker: "mat_vec (XtX p ?y) v = replicate p 0"
    have "v ! j = 0" if j: "j < p" for j
    proof -
      have "normal_rows p ?y ! j \<in> set (normal_rows p ?y)"
        using j by (simp add: normal_rows_wf)
      with ker have "dot (fst (normal_rows p ?y ! j)) v = 0"
        by (simp add: kernel_rows)
      then have "(\<Sum>k<p. (if k = j then 1 else 0) * v ! k) = 0"
        by (simp only: impulse_rows [OF assms j] dot_coeffs [OF lv])
      moreover have "(\<Sum>k<p. (if k = j then 1 else 0) * v ! k) = (\<Sum>k<p. if k = j then v ! k else 0)"
        by (rule sum.cong [OF refl]) simp
      ultimately show ?thesis using j by (simp add: sum.delta)
    qed
    with lv show "v = replicate p 0" by (simp add: list_eq_iff_nth_eq)
  qed
  then obtain sol where "solve_lin p (normal_rows p ?y) = Some sol"
    by (auto simp: nonsingular_iff)
  moreover have "2 * p < length ?y" using assms by simp
  ultimately show ?thesis by (simp add: solve_equations)
qed

lemma solved_on_symbols_iff [code]: "solved_on_symbols p N \<longleftrightarrow> 2 * p < N \<or> p = 0"
proof
  assume "solved_on_symbols p N"
  then obtain y where y: "length y = N" "solve_lin p (equations p y) \<noteq> None"
    by (auto simp: solved_on_symbols_def)
  show "2 * p < N \<or> p = 0"
  proof (rule ccontr)
    assume "\<not> (2 * p < N \<or> p = 0)"
    then have "0 < p" "length y \<le> 2 * p" using y(1) by simp_all
    from unsolved [OF this] y(2) show False by simp
  qed
next
  assume a: "2 * p < N \<or> p = 0"
  show "solved_on_symbols p N"
  proof (cases "p = 0")
    case True
    have "length (replicate N (0::real)) = N" by simp
    moreover have "solve_lin p (equations p (replicate N 0)) \<noteq> None"
      by (simp add: True equations_def)
    ultimately show ?thesis unfolding solved_on_symbols_def by blast
  next
    case False
    with a have p: "0 < p" "2 * p < N" by simp_all
    have "length ((replicate N (0::real))[p - 1 := 1]) = N" by simp
    with impulse_solved [OF p] show ?thesis unfolding solved_on_symbols_def by blast
  qed
qed

section \<open>The derivative of the log-likelihood\<close>

lemma residual_update:
  assumes "j < p" and "length phi = p"
  shows "residual p y (phi[j := x]) i = residual p y phi i - (x - phi ! j) * y_sym y (i - j - 1)"
proof -
  let ?w = "\<lambda>k. y_sym y (i - k - 1)"
  have "(\<Sum>k<p. phi[j := x] ! k * ?w k)
        = (\<Sum>k<p. phi ! k * ?w k + (if k = j then (x - phi ! j) * ?w k else 0))"
    by (rule sum.cong [OF refl]) (use assms in \<open>simp add: nth_list_update algebra_simps\<close>)
  also have "\<dots> = (\<Sum>k<p. phi ! k * ?w k) + (\<Sum>k<p. if k = j then (x - phi ! j) * ?w k else 0)"
    by (rule sum.distrib)
  also have "(\<Sum>k<p. if k = j then (x - phi ! j) * ?w k else 0) = (x - phi ! j) * ?w j"
    using assms(1) by (simp add: sum.delta')
  finally show ?thesis by (simp add: residual_def)
qed

lemma sum_sq_nonneg: "0 \<le> sum_sq p y phi"
  by (simp add: sum_sq_def sum_nonneg)

lemma sum_sq_zero:
  assumes "sum_sq p y phi = 0" and "i \<in> {p + 1..length y}"
  shows "residual p y phi i = 0"
proof -
  have "(\<Sum>i = p + 1..length y. (residual p y phi i)\<^sup>2) = 0
        \<longleftrightarrow> (\<forall>i\<in>{p + 1..length y}. (residual p y phi i)\<^sup>2 = 0)"
    by (rule sum_nonneg_eq_0_iff) simp_all
  with assms show ?thesis by (simp add: sum_sq_def)
qed

text \<open>Clearing the denominator of the derivative leaves \<open>diff_numer\<close>, wherever it is taken.\<close>

lemma clear_denominator:
  "diff_log_likelihood p y phi j * diff_denom p y phi = diff_numer p y phi j"
proof (cases "diff_denom p y phi = 0")
  case False
  then show ?thesis by (simp add: diff_log_likelihood_def)
next
  case True
  then have "real_of_int (int (length y) - 2 * int p) = 0 \<or> sum_sq p y phi = 0"
    by (auto simp: diff_denom_def sigma2_expr_def)
  then have "diff_numer p y phi j = 0"
  proof
    assume "real_of_int (int (length y) - 2 * int p) = 0"
    then show ?thesis by (simp add: diff_numer_def)
  next
    assume "sum_sq p y phi = 0"
    then have "(\<Sum>i = p + 1..length y. 2 * residual p y phi i * (- y_sym y (i - j - 1))) = 0"
      by (intro sum.neutral) (simp add: sum_sq_zero)
    then show ?thesis by (simp only: diff_numer_def mult_zero_right)
  qed
  with True show ?thesis by (simp add: diff_log_likelihood_def)
qed

lemma log_likelihood_deriv:
  assumes "j < p" and "length phi = p" and "2 * p < length y" and "sum_sq p y phi \<noteq> 0"
  shows "((\<lambda>x. log_likelihood p y (phi[j := x])) has_real_derivative diff_log_likelihood p y phi j)
           (at (phi ! j))"
proof -
  let ?I = "{p + 1..length y}"
  let ?c1 = "- real_of_int (int (length y) - int p) / 2"
  let ?c3 = "1 / real_of_int (int (length y) - 2 * int p)"
  let ?r = "residual p y phi"
  let ?u = "\<lambda>i. y_sym y (i - j - 1)"
  let ?a = "phi ! j"
  have fn: "(\<lambda>x. log_likelihood p y (phi[j := x]))
            = (\<lambda>x. ?c1 * ln (2 * pi * (?c3 * (\<Sum>i\<in>?I. (?r i - (x - ?a) * ?u i)\<^sup>2))))"
    by (rule ext) (simp add: log_likelihood_def sigma2_expr_def sum_sq_def
        residual_update [OF assms(1,2)])
  have c3: "0 < ?c3" using assms(3) by simp
  have S: "0 < (\<Sum>i\<in>?I. (?r i)\<^sup>2)"
    using assms(4) sum_sq_nonneg [of p y phi] by (simp add: sum_sq_def)
  have pos: "0 < 2 * pi * (?c3 * (\<Sum>i\<in>?I. (?r i - (?a - ?a) * ?u i)\<^sup>2))"
    using c3 S by simp
  have "((\<lambda>x. ?c1 * ln (2 * pi * (?c3 * (\<Sum>i\<in>?I. (?r i - (x - ?a) * ?u i)\<^sup>2))))
          has_real_derivative
          ?c1 * ((2 * pi * (?c3 * (\<Sum>i\<in>?I. 2 * ?r i * (- ?u i))))
                 / (2 * pi * (?c3 * (\<Sum>i\<in>?I. (?r i)\<^sup>2))))) (at ?a)"
    by (rule derivative_eq_intros refl pos | simp add: mult_ac)+
  moreover have "?c1 * ((2 * pi * (?c3 * (\<Sum>i\<in>?I. 2 * ?r i * (- ?u i))))
                 / (2 * pi * (?c3 * (\<Sum>i\<in>?I. (?r i)\<^sup>2))))
                 = diff_log_likelihood p y phi j"
    by (simp only: diff_log_likelihood_def diff_numer_def diff_denom_def sigma2_expr_def
        sum_sq_def times_divide_eq_right)
  ultimately show ?thesis by (simp only: fn)
qed

lemma diff_zero_iff:
  assumes "2 * p < length y" and "sum_sq p y phi \<noteq> 0"
  shows "diff_log_likelihood p y phi j = 0 \<longleftrightarrow> diff_numer p y phi j = 0"
proof -
  have "diff_denom p y phi \<noteq> 0"
    using assms by (simp add: diff_denom_def sigma2_expr_def)
  then show ?thesis by (simp add: diff_log_likelihood_def)
qed

lemma normal_rows_rows:
  "(\<forall>r\<in>set (normal_rows p y). P r) \<longleftrightarrow> (\<forall>j<p. P (normal_rows p y ! j))"
  using normal_rows_wf(1) [of p y] by (metis in_set_conv_nth)

lemma normal_equations_numer:
  assumes "length phi = p" and "2 * p < length y"
  shows "normal_equations p y phi \<longleftrightarrow> (\<forall>j<p. diff_numer p y phi j = 0)"
proof -
  have "normal_equations p y phi
        \<longleftrightarrow> (\<forall>j<p. dot (fst (normal_rows p y ! j)) phi = snd (normal_rows p y ! j))"
    by (simp only: normal_equations_rows normal_rows_rows)
  also have "\<dots> \<longleftrightarrow> (\<forall>j<p. diff_numer p y phi j = 0)"
    using diff_numer_affine [OF assms(1), of _ y] row_factor_nonzero [OF assms(2)] by auto
  finally show ?thesis .
qed

lemma stationary_iff:
  assumes "length phi = p" and "2 * p < length y" and "sum_sq p y phi \<noteq> 0"
  shows "(\<forall>j<p. ((\<lambda>x. log_likelihood p y (phi[j := x])) has_real_derivative 0) (at (phi ! j)))
         \<longleftrightarrow> normal_equations p y phi"
proof -
  have "((\<lambda>x. log_likelihood p y (phi[j := x])) has_real_derivative 0) (at (phi ! j))
        \<longleftrightarrow> diff_numer p y phi j = 0" if j: "j < p" for j
  proof -
    have d: "((\<lambda>x. log_likelihood p y (phi[j := x])) has_real_derivative
               diff_log_likelihood p y phi j) (at (phi ! j))"
      by (rule log_likelihood_deriv [OF j assms])
    have "((\<lambda>x. log_likelihood p y (phi[j := x])) has_real_derivative 0) (at (phi ! j))
          \<longleftrightarrow> diff_log_likelihood p y phi j = 0"
    proof
      assume "((\<lambda>x. log_likelihood p y (phi[j := x])) has_real_derivative 0) (at (phi ! j))"
      from DERIV_unique [OF d this] show "diff_log_likelihood p y phi j = 0" .
    next
      assume "diff_log_likelihood p y phi j = 0"
      with d show "((\<lambda>x. log_likelihood p y (phi[j := x])) has_real_derivative 0) (at (phi ! j))"
        by simp
    qed
    with diff_zero_iff [OF assms(2,3)] show ?thesis by simp
  qed
  then show ?thesis by (simp add: normal_equations_numer [OF assms(1,2)])
qed

section \<open>Least squares\<close>

lemma residual_shift:
  "residual p y phi' i
   = residual p y phi i - (\<Sum>k<p. (phi' ! k - phi ! k) * y_sym y (i - k - 1))"
  by (simp add: residual_def sum_subtractf left_diff_distrib)

text \<open>A solution of the normal equations has the least residual sum of squares.\<close>

lemma sum_sq_least:
  assumes "length phi = p" and "normal_equations p y phi"
  shows "sum_sq p y phi \<le> sum_sq p y phi'"
proof -
  let ?I = "{p + 1..length y}"
  let ?r = "residual p y phi"
  let ?d = "\<lambda>i. \<Sum>k<p. (phi' ! k - phi ! k) * y_sym y (i - k - 1)"
  have orth: "(\<Sum>i\<in>?I. ?r i * y_sym y (i - k - 1)) = 0" if k: "k < p" for k
  proof -
    have "normal_rows p y ! k \<in> set (normal_rows p y)"
      using k by (simp add: normal_rows_wf)
    with assms(2) have "dot (fst (normal_rows p y ! k)) phi = snd (normal_rows p y ! k)"
      by (simp add: normal_equations_rows)
    then show ?thesis by (simp only: residual_sum_linear [OF assms(1) k] diff_self)
  qed
  have "(\<Sum>i\<in>?I. ?r i * ?d i) = (\<Sum>i\<in>?I. \<Sum>k<p. (phi' ! k - phi ! k) * (?r i * y_sym y (i - k - 1)))"
    by (intro sum.cong refl) (simp add: sum_distrib_left mult_ac)
  also have "\<dots> = (\<Sum>k<p. \<Sum>i\<in>?I. (phi' ! k - phi ! k) * (?r i * y_sym y (i - k - 1)))"
    by (rule sum.swap)
  also have "\<dots> = (\<Sum>k<p. (phi' ! k - phi ! k) * (\<Sum>i\<in>?I. ?r i * y_sym y (i - k - 1)))"
    by (simp add: sum_distrib_left)
  also have "\<dots> = (\<Sum>k<p. 0)"
  proof (rule sum.cong [OF refl])
    fix k assume "k \<in> {..<p}"
    then have "k < p" by simp
    then show "(phi' ! k - phi ! k) * (\<Sum>i\<in>?I. ?r i * y_sym y (i - k - 1)) = 0"
      by (simp only: orth mult_zero_right)
  qed
  finally have cross: "(\<Sum>i\<in>?I. ?r i * ?d i) = 0" by simp
  have "sum_sq p y phi' = (\<Sum>i\<in>?I. (?r i - ?d i)\<^sup>2)"
    unfolding sum_sq_def by (subst residual_shift [of p y phi' _ phi]) (rule refl)
  also have "\<dots> = (\<Sum>i\<in>?I. (?r i)\<^sup>2 - 2 * (?r i * ?d i) + (?d i)\<^sup>2)"
    by (intro sum.cong refl) (simp add: power2_diff mult.assoc)
  also have "\<dots> = (\<Sum>i\<in>?I. (?r i)\<^sup>2) - 2 * (\<Sum>i\<in>?I. ?r i * ?d i) + (\<Sum>i\<in>?I. (?d i)\<^sup>2)"
    by (simp add: sum.distrib sum_subtractf sum_distrib_left)
  also have "\<dots> = sum_sq p y phi + (\<Sum>i\<in>?I. (?d i)\<^sup>2)"
    by (simp only: cross sum_sq_def mult_zero_right diff_zero)
  finally have "sum_sq p y phi' = sum_sq p y phi + (\<Sum>i\<in>?I. (?d i)\<^sup>2)" .
  moreover have "0 \<le> (\<Sum>i\<in>?I. (?d i)\<^sup>2)" by (simp add: sum_nonneg)
  ultimately show ?thesis by simp
qed

text \<open>Hence it has the least variance expression and the greatest log-likelihood.\<close>

lemma sigma2_least:
  assumes "length phi = p" and "normal_equations p y phi" and "2 * p < length y"
  shows "sigma2_expr p y phi \<le> sigma2_expr p y phi'"
proof -
  have "0 \<le> 1 / real_of_int (int (length y) - 2 * int p)" using assms(3) by simp
  then show ?thesis
    unfolding sigma2_expr_def
    by (rule mult_left_mono [OF sum_sq_least [OF assms(1,2)]])
qed

lemma log_likelihood_greatest:
  assumes "length phi = p" and "normal_equations p y phi" and "2 * p < length y"
    and "sum_sq p y phi \<noteq> 0"
  shows "log_likelihood p y phi' \<le> log_likelihood p y phi"
proof -
  let ?c3 = "1 / real_of_int (int (length y) - 2 * int p)"
  have c3: "0 < ?c3" using assms(3) by simp
  have S: "0 < sum_sq p y phi" using assms(4) sum_sq_nonneg [of p y phi] by simp
  have a: "0 < 2 * pi * sigma2_expr p y phi"
    using c3 S by (simp add: sigma2_expr_def)
  have "2 * pi * sigma2_expr p y phi \<le> 2 * pi * sigma2_expr p y phi'"
    using sigma2_least [OF assms(1-3), of phi'] by simp
  with a have "ln (2 * pi * sigma2_expr p y phi) \<le> ln (2 * pi * sigma2_expr p y phi')"
    by (simp only: ln_le_cancel_iff [OF a] less_le_trans [OF a])
  moreover have "- real_of_int (int (length y) - int p) / 2 \<le> 0" using assms(3) by simp
  ultimately show ?thesis
    unfolding log_likelihood_def by (rule mult_left_mono_neg)
qed

section \<open>What \<open>fit\<close> returns\<close>

lemma map_of_zip_upt:
  assumes "length vs = p" and "j < p"
  shows "map_of (zip [0..<p] vs) j = Some (vs ! j)"
proof -
  have "map_of (zip [0..<p] vs) ([0..<p] ! j) = Some (vs ! j)"
    by (rule map_of_zip_nth) (use assms in simp_all)
  with assms(2) show ?thesis by simp
qed

text \<open>
  The guards of \<open>fit\<close> in terms of the lengths alone, and its equations replaced by the
  normal equations, of which they are a non-zero multiple.
\<close>

lemma fit_guards [code]:
  "fit slf y =
     (if length y = 2 * order slf then Inl ZeroDivisionError
      else if length y < 2 * order slf then Inl NoSolutionError
      else Inr (slf\<lparr>phi_values := Some (map_of (zip [0..<order slf]
             (case solve_lin (order slf) (normal_rows (order slf) y) of
                Some sol \<Rightarrow> map Num sol
              | None \<Rightarrow> replicate (order slf) NaN)))\<rparr>))"
proof -
  have z: "int (length y) - 2 * int (order slf) = 0 \<longleftrightarrow> length y = 2 * order slf"
    by auto
  have s: "\<not> solved_on_symbols (order slf) (length y) \<longleftrightarrow> length y < 2 * order slf"
    if "length y \<noteq> 2 * order slf"
    using that by (auto simp: solved_on_symbols_iff)
  have e: "solve_lin (order slf) (equations (order slf) y)
           = solve_lin (order slf) (normal_rows (order slf) y)"
    if "length y \<noteq> 2 * order slf" "\<not> length y < 2 * order slf"
    using that by (intro solve_equations) simp
  show ?thesis
    by (simp add: fit_def Let_def z s e)
qed

lemma solved_normal_equations:
  assumes "solve_lin p (normal_rows p y) = Some sol"
  shows "length phi = p \<and> normal_equations p y phi \<longleftrightarrow> phi = sol"
proof
  assume a: "length phi = p \<and> normal_equations p y phi"
  show "phi = sol"
  proof (rule solve_lin_unique [OF assms])
    show "length phi = p" using a by simp
  next
    fix r assume "r \<in> set (normal_rows p y)"
    then show "length (fst r) = p" by (rule normal_rows_wf)
  next
    fix r assume "r \<in> set (normal_rows p y)"
    with a show "dot (fst r) phi = snd r" by (simp add: normal_equations_rows)
  qed
next
  assume "phi = sol"
  with solve_lin_sound [OF assms] show "length phi = p \<and> normal_equations p y phi"
    by (simp add: normal_equations_rows normal_rows_wf)
qed

lemma fit_solved:
  assumes "2 * order slf < length y"
    and "solve_lin (order slf) (normal_rows (order slf) y) = Some sol"
  shows "\<exists>slf'. fit slf y = Inr slf' \<and> has_coeffs slf' sol"
proof -
  let ?p = "order slf"
  let ?slf' = "slf\<lparr>phi_values := Some (map_of (zip [0..<?p] (map Num sol)))\<rparr>"
  from solve_lin_sound [OF assms(2)] have len: "length sol = ?p"
    by (simp add: normal_rows_wf)
  have "fit slf y = Inr ?slf'"
    using assms by (simp add: fit_guards)
  moreover have "map_of (zip [0..<?p] (map Num sol)) j = Some (Num (sol ! j))" if "j < ?p" for j
    using map_of_zip_upt [of "map Num sol" ?p j] len that by simp
  then have "has_coeffs ?slf' sol"
    using len by (simp add: has_coeffs_def list_all_iff del: map_of_eq_Some_iff)
  ultimately show ?thesis by blast
qed


text \<open>What a successful \<open>fit\<close> has stored, if it is finite, is the solution.\<close>

lemma fit_coeffs_solution:
  assumes "fit slf y = Inr slf'" and "has_coeffs slf' phi"
  shows "2 * order slf < length y \<and> solve_lin (order slf) (normal_rows (order slf) y) = Some phi"
proof -
  let ?p = "order slf"
  let ?vs = "case solve_lin ?p (normal_rows ?p y) of Some sol \<Rightarrow> map Num sol
             | None \<Rightarrow> replicate ?p NaN"
  from assms(1) have N: "2 * ?p < length y"
    and slf': "slf' = slf\<lparr>phi_values := Some (map_of (zip [0..<?p] ?vs))\<rparr>"
    by (auto simp: fit_guards split: if_splits)
  from assms(2) slf' have lphi: "length phi = ?p"
    and all: "\<forall>j<?p. map_of (zip [0..<?p] ?vs) j = Some (Num (phi ! j))"
    by (simp_all add: has_coeffs_def list_all_iff del: map_of_eq_Some_iff)
  show ?thesis
  proof (cases "solve_lin ?p (normal_rows ?p y)")
    case None
    show ?thesis
    proof (cases "?p = 0")
      case True
      with None show ?thesis by (simp add: normal_rows_sums)
    next
      case False
      then have "map_of (zip [0..<?p] (replicate ?p NaN)) 0 = Some NaN"
        using map_of_zip_upt [of "replicate ?p NaN" ?p 0] by simp
      moreover have "map_of (zip [0..<?p] (replicate ?p NaN)) 0 = Some (Num (phi ! 0))"
        using all None False by (simp del: map_of_eq_Some_iff)
      ultimately have "Some NaN = Some (Num (phi ! 0))" by (simp only:)
      then show ?thesis by simp
    qed
  next
    case (Some sol)
    from solve_lin_sound [OF Some] have len: "length sol = ?p"
      by (simp add: normal_rows_wf)
    have "phi ! j = sol ! j" if "j < ?p" for j
    proof -
      have "map_of (zip [0..<?p] (map Num sol)) j = Some (Num (sol ! j))"
        using map_of_zip_upt [of "map Num sol" ?p j] len that by simp
      moreover have "map_of (zip [0..<?p] (map Num sol)) j = Some (Num (phi ! j))"
        using all Some that by (simp del: map_of_eq_Some_iff)
      ultimately have "Some (Num (sol ! j)) = Some (Num (phi ! j))" by (simp only:)
      then show ?thesis by simp
    qed
    with lphi len have "phi = sol" by (simp add: list_eq_iff_nth_eq)
    with Some N show ?thesis by simp
  qed
qed

lemma fit_frame:
  assumes "fit slf y = Inr slf'"
  shows "slf' = slf\<lparr>phi_values := phi_values slf'\<rparr>
         \<and> (\<exists>d. phi_values slf' = Some d \<and> dom d = {..<order slf})"
proof -
  let ?p = "order slf"
  let ?vs = "case solve_lin ?p (normal_rows ?p y) of Some sol \<Rightarrow> map Num sol
             | None \<Rightarrow> replicate ?p NaN"
  from assms have slf': "slf' = slf\<lparr>phi_values := Some (map_of (zip [0..<?p] ?vs))\<rparr>"
    by (auto simp: fit_guards split: if_splits)
  have "length ?vs = ?p"
  proof (cases "solve_lin ?p (normal_rows ?p y)")
    case None
    then show ?thesis by simp
  next
    case (Some sol)
    from solve_lin_sound [OF Some] show ?thesis using Some by (simp add: normal_rows_wf)
  qed
  then have "dom (map_of (zip [0..<?p] ?vs)) = {..<?p}"
    by (simp add: dom_map_of_zip atLeast0LessThan)
  with slf' show ?thesis by simp
qed

lemma has_coeffs_unique:
  assumes "has_coeffs slf phi" and "has_coeffs slf phi'"
  shows "phi = phi'"
proof -
  from assms obtain d where "phi_values slf = Some d"
    and a: "\<forall>j<order slf. d j = Some (Num (phi ! j))"
    and b: "\<forall>j<order slf. d j = Some (Num (phi' ! j))"
    and l: "length phi = order slf" "length phi' = order slf"
    by (auto simp: has_coeffs_def list_all_iff split: option.splits)
  from a b have "\<forall>j<order slf. phi ! j = phi' ! j" by auto
  with l show ?thesis by (simp add: list_eq_iff_nth_eq)
qed

text \<open>The fit of the notebook's example, in exact arithmetic.\<close>

lemma example_solution: "solve_lin 2 (normal_rows 2 example_y) = Some [26 / 27, 35 / 27]"
  by code_simp

lemma example_fit: "fit (init 2) example_y = Inr example_model"
  using example_solution
  by (simp add: fit_guards init_def example_model_def example_y_def upt_conv_Cons)

section \<open>Properties of \<open>fit\<close>\<close>

text \<open>
  C1. For \<open>N > 2p\<close> and a non-singular design, \<open>fit\<close> succeeds and stores a coefficient
  vector \<open>phi\<close> that satisfies the normal equations \<open>X\<^sup>T X phi = X\<^sup>T t\<close> and has the least
  residual sum of squares. Where the residual sum is not zero, \<open>phi\<close> maximises the
  log-likelihood that \<open>fit\<close> differentiates, and a vector is a stationary point of that
  log-likelihood (each partial derivative is 0) exactly when it is \<open>phi\<close>.
\<close>

theorem fit_normal_equations:
  assumes "2 * order slf < length y" and "nonsingular_design (order slf) y"
  shows "\<exists>slf' phi. fit slf y = Inr slf' \<and> has_coeffs slf' phi \<and>
           normal_equations (order slf) y phi \<and>
           (\<forall>phi'. length phi' = order slf \<longrightarrow>
              sum_sq (order slf) y phi \<le> sum_sq (order slf) y phi') \<and>
           (sum_sq (order slf) y phi \<noteq> 0 \<longrightarrow>
              (\<forall>phi'. length phi' = order slf \<longrightarrow>
                 log_likelihood (order slf) y phi' \<le> log_likelihood (order slf) y phi)) \<and>
           (\<forall>phi'. length phi' = order slf \<longrightarrow> sum_sq (order slf) y phi' \<noteq> 0 \<longrightarrow>
              ((\<forall>j<order slf. ((\<lambda>x. log_likelihood (order slf) y (phi'[j := x]))
                                  has_real_derivative 0) (at (phi' ! j)))
               \<longleftrightarrow> phi' = phi))"
proof -
  let ?p = "order slf"
  from assms(2) obtain sol where sol: "solve_lin ?p (normal_rows ?p y) = Some sol"
    by (auto simp: nonsingular_iff)
  from fit_solved [OF assms(1) sol]
  obtain slf' where f: "fit slf y = Inr slf'" and c: "has_coeffs slf' sol" by blast
  from solved_normal_equations [OF sol, of sol]
  have l: "length sol = ?p" and n: "normal_equations ?p y sol" by simp_all
  have least: "sum_sq ?p y sol \<le> sum_sq ?p y phi'" for phi'
    by (rule sum_sq_least [OF l n])
  have greatest: "log_likelihood ?p y phi' \<le> log_likelihood ?p y sol"
    if "sum_sq ?p y sol \<noteq> 0" for phi'
    by (rule log_likelihood_greatest [OF l n assms(1) that])
  have "(\<forall>j<?p. ((\<lambda>x. log_likelihood ?p y (phi'[j := x])) has_real_derivative 0) (at (phi' ! j)))
        \<longleftrightarrow> phi' = sol"
    if l': "length phi' = ?p" and s: "sum_sq ?p y phi' \<noteq> 0" for phi'
    using stationary_iff [OF l' assms(1) s] solved_normal_equations [OF sol, of phi'] l'
    by simp
  with f c n least greatest show ?thesis by blast
qed

lemma example_nonsingular: "nonsingular_design 2 example_y"
  using example_solution by (auto simp: nonsingular_iff)

theorem fit_normal_equations_witness:
  "fit (init 2) example_y = Inr example_model \<and>
   has_coeffs example_model [26 / 27, 35 / 27] \<and>
   normal_equations 2 example_y [26 / 27, 35 / 27] \<and>
   sum_sq 2 example_y [26 / 27, 35 / 27] \<le> sum_sq 2 example_y [1, 1] \<and>
   sum_sq 2 example_y [26 / 27, 35 / 27] \<noteq> 0 \<and>
   log_likelihood 2 example_y [1, 1] \<le> log_likelihood 2 example_y [26 / 27, 35 / 27] \<and>
   ((\<lambda>x. log_likelihood 2 example_y ([26 / 27, 35 / 27][0 := x])) has_real_derivative 0)
     (at (26 / 27)) \<and>
   ((\<lambda>x. log_likelihood 2 example_y ([26 / 27, 35 / 27][1 := x])) has_real_derivative 0)
     (at (35 / 27))"
proof -
  let ?phi = "[26 / 27, 35 / 27] :: real list"
  have h1: "2 * order (init 2) < length example_y"
    by (simp add: init_def example_y_def)
  have h2: "nonsingular_design (order (init 2)) example_y"
    by (simp add: init_def example_nonsingular)
  from fit_normal_equations [OF h1 h2]
  obtain slf' phi where f: "fit (init 2) example_y = Inr slf'" and c: "has_coeffs slf' phi"
    and n: "normal_equations 2 example_y phi"
    and least: "\<forall>phi'. length phi' = 2 \<longrightarrow> sum_sq 2 example_y phi \<le> sum_sq 2 example_y phi'"
    and greatest: "sum_sq 2 example_y phi \<noteq> 0 \<longrightarrow>
       (\<forall>phi'. length phi' = 2 \<longrightarrow> log_likelihood 2 example_y phi' \<le> log_likelihood 2 example_y phi)"
    and stat: "\<forall>phi'. length phi' = 2 \<longrightarrow> sum_sq 2 example_y phi' \<noteq> 0 \<longrightarrow>
       ((\<forall>j<2. ((\<lambda>x. log_likelihood 2 example_y (phi'[j := x])) has_real_derivative 0)
                   (at (phi' ! j))) \<longleftrightarrow> phi' = phi)"
    by (auto simp: init_def)
  from f example_fit have "slf' = example_model" by simp
  with c have phi: "phi = ?phi"
    by (intro has_coeffs_unique [OF _ example_has_coeffs]) simp
  have nz: "sum_sq 2 example_y ?phi \<noteq> 0"
    by (simp add: sum_sq_def residual_def y_sym_def example_y_def numeral_2_eq_2
        sum.atLeast_Suc_atMost)
  have d: "\<forall>j<2. ((\<lambda>x. log_likelihood 2 example_y (?phi[j := x])) has_real_derivative 0)
                   (at (?phi ! j))"
  proof -
    have "length ?phi = 2" by simp
    with stat [unfolded phi] nz show ?thesis by blast
  qed
  have d0: "((\<lambda>x. log_likelihood 2 example_y (?phi[0 := x])) has_real_derivative 0) (at (?phi ! 0))"
    by (rule d [rule_format]) simp
  have d1: "((\<lambda>x. log_likelihood 2 example_y (?phi[1 := x])) has_real_derivative 0) (at (?phi ! 1))"
    by (rule d [rule_format]) simp
  have "sum_sq 2 example_y ?phi \<le> sum_sq 2 example_y [1, 1]"
    using least unfolding phi by simp
  moreover have "log_likelihood 2 example_y [1, 1] \<le> log_likelihood 2 example_y ?phi"
    using greatest nz unfolding phi by simp
  moreover have "normal_equations 2 example_y ?phi" using n unfolding phi .
  ultimately show ?thesis
    using example_fit example_has_coeffs nz d0 d1 by simp
qed

text \<open>
  C2 (as the code has it). A successful \<open>fit\<close> assigns \<open>phi_values\<close>, a dictionary with
  exactly the keys \<open>phi[0], ..., phi[p-1]\<close>, and nothing else: every other attribute, the
  symbol in \<open>sigma2\<close> among them, is what it was, and the method returns nothing. The
  variance enters only as the expression \<open>(1 / (N - 2p)) * \<Sum>t=p+1..N. e(t)\<^sup>2\<close> inside the
  log-likelihood; finite stored coefficients make that expression least, but it is not
  evaluated at them and not stored.
\<close>

theorem fit_stores_coefficients_only:
  assumes "fit slf y = Inr slf'"
  shows "slf' = slf\<lparr>phi_values := phi_values slf'\<rparr> \<and>
         (\<exists>d. phi_values slf' = Some d \<and> dom d = {..<order slf}) \<and>
         (\<forall>phi. log_likelihood (order slf) y phi
                = - (real (length y) - real (order slf)) / 2
                  * ln (2 * pi * ((1 / (real (length y) - 2 * real (order slf)))
                      * (\<Sum>t = order slf + 1..length y. (residual (order slf) y phi t)\<^sup>2)))) \<and>
         (\<forall>phi phi'. has_coeffs slf' phi \<longrightarrow> length phi' = order slf \<longrightarrow>
            (1 / (real (length y) - 2 * real (order slf)))
              * (\<Sum>t = order slf + 1..length y. (residual (order slf) y phi t)\<^sup>2)
            \<le> (1 / (real (length y) - 2 * real (order slf)))
              * (\<Sum>t = order slf + 1..length y. (residual (order slf) y phi' t)\<^sup>2))"
proof -
  let ?p = "order slf"
  have var: "(1 / (real (length y) - 2 * real ?p))
               * (\<Sum>t = ?p + 1..length y. (residual ?p y phi t)\<^sup>2) = sigma2_expr ?p y phi" for phi
    by (simp add: sigma2_expr_def sum_sq_def)
  have "sigma2_expr ?p y phi \<le> sigma2_expr ?p y phi'" if c: "has_coeffs slf' phi" for phi phi'
  proof -
    from fit_coeffs_solution [OF assms c] have N: "2 * ?p < length y"
      and sol: "solve_lin ?p (normal_rows ?p y) = Some phi" by simp_all
    from solved_normal_equations [OF sol, of phi]
    have "length phi = ?p" "normal_equations ?p y phi" by simp_all
    then show ?thesis using N by (rule sigma2_least)
  qed
  moreover have "log_likelihood ?p y phi
                = - (real (length y) - real ?p) / 2
                  * ln (2 * pi * ((1 / (real (length y) - 2 * real ?p))
                      * (\<Sum>t = ?p + 1..length y. (residual ?p y phi t)\<^sup>2)))" for phi
    by (simp add: log_likelihood_def sigma2_expr_def sum_sq_def)
  ultimately show ?thesis
    using fit_frame [OF assms] by (simp only: var) blast
qed

theorem fit_stores_coefficients_only_witness:
  "example_model = (init 2)\<lparr>phi_values := phi_values example_model\<rparr> \<and>
   (\<exists>d. phi_values example_model = Some d \<and> dom d = {..<2}) \<and>
   (1 / (real (length example_y) - 2 * real 2))
     * (\<Sum>t = 2 + 1..length example_y. (residual 2 example_y [26 / 27, 35 / 27] t)\<^sup>2)
   \<le> (1 / (real (length example_y) - 2 * real 2))
     * (\<Sum>t = 2 + 1..length example_y. (residual 2 example_y [1, 1] t)\<^sup>2)"
proof -
  have "length [1, 1 :: real] = order (init 2)" by (simp add: init_def)
  with fit_stores_coefficients_only [OF example_fit] example_has_coeffs
  show ?thesis by (simp add: init_def)
qed

text \<open>
  After fitting the notebook's example the object holds a coefficient for each \<open>phi[j]\<close>
  and, for the variance, still the symbol.
\<close>

theorem fit_variance_counterexample:
  "\<exists>slf'. fit (init 2) example_y = Inr slf' \<and> fitted slf' \<and>
          sigma2 slf' = Symbol ''sigma2'' \<and> (\<forall>v. sigma2 slf' \<noteq> Number v)"
proof -
  have "sigma2 example_model = Symbol ''sigma2''" by (simp add: example_model_def)
  with example_fit example_fitted show ?thesis by simp
qed












end
